theory Spec2Isabelle
  imports Main "HOL-Library.Log_Nat"
begin

section \<open>Python numbers\<close>

text \<open>
  The script computes with Python \<open>float\<close>s, which are IEEE 754 binary64 numbers. A finite
  double is modelled by its exact value, a rational number; every arithmetic operation
  computes the exact result and rounds it to the nearest double, ties to the even
  significand (\<open>rnd\<close>). Doubles have 53 significant bits and the least exponent of the
  unit in the last place is \<open>-1074\<close> (subnormal numbers), so the unit in the last place of
  a value \<open>x\<close> is \<open>2 powi fexp x\<close>.

  The two zeros are identified: the script only compares, adds, subtracts, multiplies and
  divides by a non-zero constant, and none of these tells \<open>-0.0\<close> from \<open>0.0\<close>.
  Infinities and NaN are left out: every operand of the script's float arithmetic lies
  between \<open>-1.5\<close> and \<open>255\<close>, except the quotient \<open>frame_num / FPS\<close>, whose overflow
  Python reports as \<open>OverflowError\<close> and the model as an error value.
\<close>

datatype error =
  IndexError | ZeroDivisionError | OverflowError | FileNotFoundError | FileExistsError
| IsADirectoryError

definition ilog2 :: "rat \<Rightarrow> int" where
  \<comment> \<open>the integer part of the binary logarithm of a positive rational\<close>
  "ilog2 x = (if 1 \<le> x then bitlen \<lfloor>x\<rfloor> - 1 else - bitlen (\<lceil>1 / x\<rceil> - 1))"

definition rne :: "rat \<Rightarrow> int" where
  \<comment> \<open>the nearest integer, a tie going to the even one\<close>
  "rne q = (let f = \<lfloor>q\<rfloor>; r = q - of_int f in
     if r < 1 / 2 then f else if 1 / 2 < r then f + 1 else if even f then f else f + 1)"

definition fexp :: "rat \<Rightarrow> int" where
  "fexp x = max (ilog2 \<bar>x\<bar> - 52) (- 1074)"

definition rnd :: "rat \<Rightarrow> rat" where
  "rnd x = (if x = 0 then 0 else of_int (rne (x / 2 powi fexp x)) * 2 powi fexp x)"

definition is_double :: "rat \<Rightarrow> bool" where
  "is_double x \<longleftrightarrow> rnd x = x \<and> \<bar>x\<bar> < 2 ^ 1024"

definition float_lit :: "rat \<Rightarrow> rat" where
  \<comment> \<open>a decimal literal of the source denotes the double nearest to it\<close>
  "float_lit d = rnd d"

definition float_of_int :: "int \<Rightarrow> rat" where
  \<comment> \<open>the conversion of the int operand of a mixed float and int operation\<close>
  "float_of_int n = rnd (of_int n)"

definition fadd :: "rat \<Rightarrow> rat \<Rightarrow> rat" where
  "fadd a b = rnd (a + b)"

definition fsub :: "rat \<Rightarrow> rat \<Rightarrow> rat" where
  "fsub a b = rnd (a - b)"

definition fmul :: "rat \<Rightarrow> rat \<Rightarrow> rat" where
  "fmul a b = rnd (a * b)"

definition fdiv :: "rat \<Rightarrow> rat \<Rightarrow> error + rat" where
  "fdiv a b = (if b = 0 then Inl ZeroDivisionError else Inr (rnd (a / b)))"

definition int_truediv :: "int \<Rightarrow> int \<Rightarrow> error + rat" where
  \<comment> \<open>\<open>a / b\<close> on two ints: the correctly rounded quotient\<close>
  "int_truediv a b =
     (if b = 0 then Inl ZeroDivisionError
      else let q = rnd (of_int a / of_int b)
           in if 2 ^ 1024 \<le> \<bar>q\<bar> then Inl OverflowError else Inr q)"

definition trunc :: "rat \<Rightarrow> int" where
  "trunc x = (if 0 \<le> x then \<lfloor>x\<rfloor> else \<lceil>x\<rceil>)"

definition fmod :: "rat \<Rightarrow> rat \<Rightarrow> rat" where
  \<comment> \<open>C's \<open>fmod\<close>: the exact remainder, with the sign of the dividend\<close>
  "fmod x y = x - of_int (trunc (x / y)) * y"

definition float_mod :: "rat \<Rightarrow> rat \<Rightarrow> error + rat" where
  \<comment> \<open>\<open>v % w\<close> on floats: \<open>fmod\<close>, moved to the sign of the divisor\<close>
  "float_mod v w =
     (if w = 0 then Inl ZeroDivisionError
      else let m = fmod v w
           in if m \<noteq> 0 then (if (w < 0) \<noteq> (m < 0) then Inr (fadd m w) else Inr m)
              else Inr 0)"

definition py_int :: "rat \<Rightarrow> int" where
  \<comment> \<open>\<open>int(x)\<close> on a float truncates towards zero\<close>
  "py_int x = trunc x"

definition py_index :: "'a list \<Rightarrow> int \<Rightarrow> error + 'a" where
  \<comment> \<open>\<open>xs[i]\<close>; the indices \<open>-len(xs)\<close> to \<open>-1\<close> count from the end of the list\<close>
  "py_index xs i =
     (if 0 \<le> i \<and> i < int (length xs) then Inr (xs ! nat i)
      else if - int (length xs) \<le> i \<and> i < 0 then Inr (xs ! nat (int (length xs) + i))
      else Inl IndexError)"

definition py_range :: "int \<Rightarrow> int list" where
  "py_range n = [0..n - 1]"

section \<open>Animation parameters\<close>

definition DOT_SIZE :: int where "DOT_SIZE = 30"
definition DOT_SPACING :: int where "DOT_SPACING = 26"
definition FPS :: int where "FPS = 30"
definition CYCLE_DURATION :: rat where "CYCLE_DURATION = float_lit (15 / 10)"

definition FADE_START :: "rat list" where
  "FADE_START = [float_lit 0, float_lit (25 / 100), float_lit (5 / 10)]"

definition BRIGHTEN_START :: "rat list" where
  "BRIGHTEN_START = [float_lit (75 / 100), float_lit 1, float_lit (125 / 100)]"

definition TRANSITION_TIME :: rat where "TRANSITION_TIME = float_lit (1 / 10)"

definition NUM_DOTS :: int where "NUM_DOTS = 3"

definition TOTAL_WIDTH :: int where
  "TOTAL_WIDTH = (DOT_SIZE * NUM_DOTS) + (DOT_SPACING * (NUM_DOTS - 1))"

definition PADDING :: int where "PADDING = 2"
definition WIDTH :: int where "WIDTH = TOTAL_WIDTH + (PADDING * 2)"
definition HEIGHT :: int where "HEIGHT = DOT_SIZE + (PADDING * 2)"

definition TOTAL_FRAMES :: int where
  "TOTAL_FRAMES = py_int (fmul CYCLE_DURATION (float_of_int FPS))"

section \<open>The opacity waveform\<close>

definition get_opacity_at_time :: "int \<Rightarrow> rat \<Rightarrow> error + rat" where
  "get_opacity_at_time dot_index current_time =
     (case py_index FADE_START dot_index of Inl e \<Rightarrow> Inl e | Inr fade_time \<Rightarrow>
     (case py_index BRIGHTEN_START dot_index of Inl e \<Rightarrow> Inl e | Inr brighten_time \<Rightarrow>
      if current_time < fade_time then Inr (float_lit 1)
      else if current_time < fadd fade_time TRANSITION_TIME then
        (case fdiv (fsub current_time fade_time) TRANSITION_TIME of Inl e \<Rightarrow> Inl e
         | Inr progress \<Rightarrow> Inr (fsub (float_lit 1) (fmul (float_lit (5 / 10)) progress)))
      else if current_time < brighten_time then Inr (float_lit (5 / 10))
      else if current_time < fadd brighten_time TRANSITION_TIME then
        (case fdiv (fsub current_time brighten_time) TRANSITION_TIME of Inl e \<Rightarrow> Inl e
         | Inr progress \<Rightarrow> Inr (fadd (float_lit (5 / 10)) (fmul (float_lit (5 / 10)) progress)))
      else Inr (float_lit 1)))"

section \<open>Frames\<close>

text \<open>
  A frame is the canvas \<open>Image.new\<close> makes and the \<open>draw.ellipse\<close> calls made on it, in
  order. The imaging library turns this into pixels; it is a function of these data, so
  two frames with the same canvas and the same calls are the same picture, and two frames
  whose calls differ in the fill of a dot differ in the pixels of that dot.
\<close>

type_synonym rgba = "int \<times> int \<times> int \<times> int"

record ellipse =
  bbox :: "int \<times> int \<times> int \<times> int"
  fill :: rgba

record image =
  canvas :: "int \<times> int"
  background :: rgba
  drawn :: "ellipse list"

definition image_new :: "int \<times> int \<Rightarrow> rgba \<Rightarrow> image" where
  "image_new sz bg = \<lparr>canvas = sz, background = bg, drawn = []\<rparr>"

definition draw_ellipse :: "int \<times> int \<times> int \<times> int \<Rightarrow> rgba \<Rightarrow> image \<Rightarrow> image" where
  "draw_ellipse box ink img = img\<lparr>drawn := drawn img @ [\<lparr>bbox = box, fill = ink\<rparr>]\<rparr>"

definition frame_time :: "int \<Rightarrow> error + rat" where
  \<comment> \<open>\<open>(frame_num / FPS) % CYCLE_DURATION\<close>\<close>
  "frame_time frame_num =
     (case int_truediv frame_num FPS of Inl e \<Rightarrow> Inl e
      | Inr q \<Rightarrow> float_mod q CYCLE_DURATION)"

fun draw_dots :: "rat \<Rightarrow> int list \<Rightarrow> image \<Rightarrow> error + image" where
  "draw_dots current_time [] img = Inr img"
| "draw_dots current_time (i # rest) img =
     (let x = PADDING + (i * (DOT_SIZE + DOT_SPACING)); y = PADDING
      in case get_opacity_at_time i current_time of Inl e \<Rightarrow> Inl e
         | Inr opacity \<Rightarrow>
             let alpha = py_int (fmul opacity (float_of_int 255))
             in draw_dots current_time rest
                  (draw_ellipse (x, y, x + DOT_SIZE, y + DOT_SIZE) (0, 0, 0, alpha) img))"

definition create_frame :: "int \<Rightarrow> error + image" where
  "create_frame frame_num =
     (let img = image_new (WIDTH, HEIGHT) (0, 0, 0, 0)
      in case frame_time frame_num of Inl e \<Rightarrow> Inl e
         | Inr current_time \<Rightarrow> draw_dots current_time (py_range NUM_DOTS) img)"

section \<open>Files\<close>

text \<open>
  The file system is a map from files to their contents, together with the set of
  directories and the sequence of file operations performed so far. Which file a path
  names, and in which directory that file lies, depends on the platform: on Windows the
  backslash of \<open>tmp\frame_0000.png\<close> separates a directory from a file name, elsewhere it
  is a character of the file name, and two spellings may name one file. The state says so
  with \<open>file_of\<close> and \<open>dir_of\<close>, and files and directories are identified by what \<open>file_of\<close>
  gives for their paths.

  Opening a path for writing raises \<open>IsADirectoryError\<close> when the path names a directory
  (Windows reports this as a \<open>PermissionError\<close>) and \<open>FileNotFoundError\<close> when the directory
  of the path does not exist; reading, measuring or removing a file that does not exist
  raises \<open>FileNotFoundError\<close>. An error comes with the state in which it was raised, so that
  what a failed run leaves behind can be read off. Access rights, full disks and console
  output are not modelled.

  A PNG file holds one image; an animated PNG holds the contents of the files appended to
  it, each with its delay in milliseconds.
\<close>

datatype content = PngImage image | ApngFile "(content \<times> int) list"

datatype event =
  MakeDirs string
| SavePng string image
| AppendFile string int
| SaveApng string content
| GetSize string
| Remove string

record world =
  files :: "string \<rightharpoonup> content"
  dirs :: "string set"
  trace :: "event list"
  file_of :: "string \<Rightarrow> string"
  dir_of :: "string \<Rightarrow> string"

definition open_for_writing :: "string \<Rightarrow> world \<Rightarrow> error option" where
  \<comment> \<open>the error, if any, of \<open>open(path, 'wb')\<close>\<close>
  "open_for_writing path w =
     (if file_of w path \<in> dirs w then Some IsADirectoryError
      else if dir_of w path \<in> dirs w then None
      else Some FileNotFoundError)"

definition digit_char :: "nat \<Rightarrow> char" where
  "digit_char d = ''0123456789'' ! d"

function str_nat :: "nat \<Rightarrow> string" where
  "str_nat n = (if n < 10 then [digit_char n] else str_nat (n div 10) @ [digit_char (n mod 10)])"
  by pat_completeness auto
termination
  by (relation "measure id") auto

definition format_04d :: "int \<Rightarrow> string" where
  \<comment> \<open>the format specification \<open>04d\<close>: sign, then zeros up to four characters\<close>
  "format_04d i =
     (let sign = (if i < 0 then [CHR ''-''] else []); digits = str_nat (nat \<bar>i\<bar>)
      in sign @ replicate (4 - length sign - length digits) (CHR ''0'') @ digits)"

definition temp_path :: "int \<Rightarrow> string" where
  "temp_path i = ''tmp'' @ [CHR 0x5C] @ ''frame_'' @ format_04d i @ ''.png''"

definition image_save :: "image \<Rightarrow> string \<Rightarrow> world \<Rightarrow> (error \<times> world) + world" where
  "image_save frame path w =
     (case open_for_writing path w of Some e \<Rightarrow> Inl (e, w)
      | None \<Rightarrow>
          Inr (w\<lparr>files := (files w)(file_of w path \<mapsto> PngImage frame),
                 trace := trace w @ [SavePng path frame]\<rparr>))"

fun save_frames ::
  "int list \<Rightarrow> string list \<Rightarrow> world \<Rightarrow> (error \<times> world) + (string list \<times> world)"
where
  "save_frames [] frame_files w = Inr (frame_files, w)"
| "save_frames (i # rest) frame_files w =
     (case create_frame i of Inl e \<Rightarrow> Inl (e, w)
      | Inr frame \<Rightarrow>
          (case image_save frame (temp_path i) w of Inl ew \<Rightarrow> Inl ew
           | Inr w1 \<Rightarrow> save_frames rest (frame_files @ [temp_path i]) w1))"

definition key_times :: "rat list" where
  "key_times = [float_lit 0, float_lit (25 / 100), float_lit (5 / 10), float_lit (75 / 100),
     float_lit 1, float_lit (125 / 100), float_lit (15 / 10)]"

fun opacities_of :: "int list \<Rightarrow> rat \<Rightarrow> error + rat list" where
  "opacities_of [] t = Inr []"
| "opacities_of (i # rest) t =
     (case get_opacity_at_time i t of Inl e \<Rightarrow> Inl e
      | Inr v \<Rightarrow> (case opacities_of rest t of Inl e \<Rightarrow> Inl e | Inr vs \<Rightarrow> Inr (v # vs)))"

fun key_moments :: "rat list \<Rightarrow> error + rat list list" where
  "key_moments [] = Inr []"
| "key_moments (t # rest) =
     (case opacities_of (py_range NUM_DOTS) t of Inl e \<Rightarrow> Inl e
      | Inr opacities \<Rightarrow>
     (case py_index opacities 0 of Inl e \<Rightarrow> Inl e | Inr o0 \<Rightarrow>
     (case py_index opacities 1 of Inl e \<Rightarrow> Inl e | Inr o1 \<Rightarrow>
     (case py_index opacities 2 of Inl e \<Rightarrow> Inl e | Inr o2 \<Rightarrow>
     (case key_moments rest of Inl e \<Rightarrow> Inl e
      | Inr rows \<Rightarrow> Inr ([t, o0, o1, o2] # rows))))))"

fun append_files ::
  "string list \<Rightarrow> int \<Rightarrow> (content \<times> int) list \<Rightarrow> world \<Rightarrow>
     (error \<times> world) + ((content \<times> int) list \<times> world)"
where
  "append_files [] delay apng_obj w = Inr (apng_obj, w)"
| "append_files (frame_path # rest) delay apng_obj w =
     (case files w (file_of w frame_path) of None \<Rightarrow> Inl (FileNotFoundError, w)
      | Some c \<Rightarrow>
          append_files rest delay (apng_obj @ [(c, delay)])
            (w\<lparr>trace := trace w @ [AppendFile frame_path delay]\<rparr>))"

definition apng_save :: "(content \<times> int) list \<Rightarrow> string \<Rightarrow> world \<Rightarrow> (error \<times> world) + world" where
  "apng_save apng_obj path w =
     (case open_for_writing path w of Some e \<Rightarrow> Inl (e, w)
      | None \<Rightarrow>
          Inr (w\<lparr>files := (files w)(file_of w path \<mapsto> ApngFile apng_obj),
                 trace := trace w @ [SaveApng path (ApngFile apng_obj)]\<rparr>))"

definition getsize :: "string \<Rightarrow> world \<Rightarrow> (error \<times> world) + world" where
  "getsize path w =
     (case files w (file_of w path) of None \<Rightarrow> Inl (FileNotFoundError, w)
      | Some c \<Rightarrow> Inr (w\<lparr>trace := trace w @ [GetSize path]\<rparr>))"

fun remove_files :: "string list \<Rightarrow> world \<Rightarrow> (error \<times> world) + world" where
  "remove_files [] w = Inr w"
| "remove_files (f # rest) w =
     (case files w (file_of w f) of None \<Rightarrow> Inl (FileNotFoundError, w)
      | Some c \<Rightarrow>
          remove_files rest
            (w\<lparr>files := (files w)(file_of w f := None), trace := trace w @ [Remove f]\<rparr>))"

definition generate_apng :: "string \<Rightarrow> world \<Rightarrow> (error \<times> world) + world" where
  "generate_apng output_path w =
     (case save_frames (py_range TOTAL_FRAMES) [] w of Inl ew \<Rightarrow> Inl ew
      | Inr (frame_files, w1) \<Rightarrow>
     (case key_moments key_times of Inl e \<Rightarrow> Inl (e, w1)
      | Inr rows \<Rightarrow>
     (case int_truediv 1000 FPS of Inl e \<Rightarrow> Inl (e, w1)
      | Inr q \<Rightarrow>
     (let frame_duration = py_int q
      in case append_files frame_files frame_duration [] w1 of Inl ew \<Rightarrow> Inl ew
         | Inr (apng_obj, w2) \<Rightarrow>
        (case apng_save apng_obj output_path w2 of Inl ew \<Rightarrow> Inl ew
         | Inr w3 \<Rightarrow>
        (case getsize output_path w3 of Inl ew \<Rightarrow> Inl ew
         | Inr w4 \<Rightarrow> remove_files frame_files w4))))))"

definition makedirs_exist_ok :: "string \<Rightarrow> world \<Rightarrow> (error \<times> world) + world" where
  \<comment> \<open>\<open>os.makedirs(d, exist_ok=True)\<close>: an existing directory is accepted, an existing file is not\<close>
  "makedirs_exist_ok d w =
     (if file_of w d \<in> dirs w then Inr (w\<lparr>trace := trace w @ [MakeDirs d]\<rparr>)
      else if files w (file_of w d) = None
      then Inr (w\<lparr>dirs := insert (file_of w d) (dirs w), trace := trace w @ [MakeDirs d]\<rparr>)
      else Inl (FileExistsError, w))"

definition main :: "string list \<Rightarrow> world \<Rightarrow> (error \<times> world) + world" where
  \<comment> \<open>the script run with \<open>sys.argv = argv\<close>\<close>
  "main argv w =
     (case makedirs_exist_ok ''tmp'' w of Inl ew \<Rightarrow> Inl ew
      | Inr w0 \<Rightarrow>
          (let output_file =
                 (if length argv > 1 then argv ! 1 else ''ellipsis_animation.png'')
           in generate_apng output_file w0))"

section \<open>The reference waveform\<close>

definition reference_waveform :: "rat list \<Rightarrow> rat list \<Rightarrow> nat \<Rightarrow> rat \<Rightarrow> rat" where
  \<comment> \<open>the piecewise-linear waveform as the specification words it, one clause for each
     interval, for fade start times \<open>fs\<close> and brighten start times \<open>bs\<close>; the numbers are
     the exact rationals and the arithmetic is exact\<close>
  "reference_waveform fs bs i t =
     (if t < fs ! i then 1
      else if fs ! i \<le> t \<and> t < fs ! i + 1 / 10 then 1 - 5 / 10 * ((t - fs ! i) / (1 / 10))
      else if fs ! i + 1 / 10 \<le> t \<and> t < bs ! i then 5 / 10
      else if bs ! i \<le> t \<and> t < bs ! i + 1 / 10 then 5 / 10 + 5 / 10 * ((t - bs ! i) / (1 / 10))
      else 1)"

definition frame_of_alphas :: "int \<Rightarrow> int \<Rightarrow> int \<Rightarrow> image" where
  \<comment> \<open>the frame whose three dots have the given alpha channels\<close>
  "frame_of_alphas a0 a1 a2 =
     \<lparr>canvas = (146, 34), background = (0, 0, 0, 0),
      drawn = [\<lparr>bbox = (2, 2, 32, 32), fill = (0, 0, 0, a0)\<rparr>,
               \<lparr>bbox = (58, 2, 88, 32), fill = (0, 0, 0, a1)\<rparr>,
               \<lparr>bbox = (114, 2, 144, 32), fill = (0, 0, 0, a2)\<rparr>]\<rparr>"

section \<open>Observing a run\<close>

definition new_events :: "world \<Rightarrow> world \<Rightarrow> event list" where
  \<comment> \<open>the file operations performed between the state \<open>w\<close> and the later state \<open>w'\<close>\<close>
  "new_events w w' = drop (length (trace w)) (trace w')"

fun png_saves :: "event list \<Rightarrow> (string \<times> image) list" where
  "png_saves [] = []"
| "png_saves (SavePng p f # es) = (p, f) # png_saves es"
| "png_saves (e # es) = png_saves es"

fun apng_saves :: "event list \<Rightarrow> (string \<times> content) list" where
  "apng_saves [] = []"
| "apng_saves (SaveApng p c # es) = (p, c) # apng_saves es"
| "apng_saves (e # es) = apng_saves es"

fun appended :: "event list \<Rightarrow> (string \<times> int) list" where
  "appended [] = []"
| "appended (AppendFile p d # es) = (p, d) # appended es"
| "appended (e # es) = appended es"

definition empty_world :: world where
  \<comment> \<open>an empty current directory, where every path names a file of its own in it\<close>
  "empty_world =
     \<lparr>files = Map.empty, dirs = {''.''}, trace = [], file_of = (\<lambda>p. p),
      dir_of = (\<lambda>p. ''.'')\<rparr>"

section \<open>Properties of rounding\<close>

lemma ilog2_bounds:
  assumes "0 < x"
  shows "2 powi ilog2 x \<le> x" and "x < 2 powi (ilog2 x + 1)"
proof -
  show "2 powi ilog2 x \<le> x"
  proof (cases "1 \<le> x")
    case True
    define n where "n = \<lfloor>x\<rfloor>"
    have n1: "1 \<le> n" using True by (simp add: n_def)
    then have b: "2 ^ nat (bitlen n - 1) \<le> n" using bitlen_bounds [of n] by simp
    have b1: "1 \<le> bitlen n" using n1 by (simp add: bitlen_alt_def)
    have "(2::rat) powi (bitlen n - 1) = 2 ^ nat (bitlen n - 1)"
      using b1 by (simp add: power_int_def)
    also have "\<dots> = of_int (2 ^ nat (bitlen n - 1))" by simp
    also have "\<dots> \<le> of_int n" using b by (simp only: of_int_le_iff)
    also have "\<dots> \<le> x" by (simp add: n_def)
    finally show ?thesis using True by (simp add: ilog2_def n_def)
  next
    case False
    define y where "y = 1 / x"
    define n where "n = \<lceil>y\<rceil> - 1"
    have y1: "1 < y" using False assms by (simp add: y_def)
    then have n1: "1 \<le> n" unfolding n_def by (simp add: less_ceiling_iff)
    have b: "n < 2 ^ nat (bitlen n)" using bitlen_bounds [of n] n1 by simp
    have b0: "0 \<le> bitlen n" by (rule bitlen_nonneg)
    have "y \<le> of_int (n + 1)" by (simp add: n_def)
    also have "\<dots> \<le> of_int (2 ^ nat (bitlen n))"
    proof -
      have "n + 1 \<le> 2 ^ nat (bitlen n)" using b by simp
      then show ?thesis by (simp only: of_int_le_iff)
    qed
    also have "\<dots> = (2::rat) ^ nat (bitlen n)" by simp
    finally have "y \<le> 2 ^ nat (bitlen n)" .
    then have "1 / 2 ^ nat (bitlen n) \<le> x"
      using assms by (simp add: y_def field_simps)
    moreover have "(2::rat) powi (- bitlen n) = 1 / 2 ^ nat (bitlen n)"
      using b0 by (simp add: power_int_def field_simps)
    ultimately show ?thesis using False by (simp add: ilog2_def n_def y_def)
  qed
  show "x < 2 powi (ilog2 x + 1)"
  proof (cases "1 \<le> x")
    case True
    define n where "n = \<lfloor>x\<rfloor>"
    have n1: "1 \<le> n" using True by (simp add: n_def)
    then have b: "n < 2 ^ nat (bitlen n)" using bitlen_bounds [of n] by simp
    have b0: "0 \<le> bitlen n" by (rule bitlen_nonneg)
    have "x < of_int (n + 1)" unfolding n_def by linarith
    also have "\<dots> \<le> of_int (2 ^ nat (bitlen n))"
    proof -
      have "n + 1 \<le> 2 ^ nat (bitlen n)" using b by simp
      then show ?thesis by (simp only: of_int_le_iff)
    qed
    also have "\<dots> = (2::rat) ^ nat (bitlen n)" by simp
    also have "\<dots> = 2 powi (bitlen n)" using b0 by (simp add: power_int_def)
    finally show ?thesis using True by (simp add: ilog2_def n_def)
  next
    case False
    define y where "y = 1 / x"
    define n where "n = \<lceil>y\<rceil> - 1"
    have y1: "1 < y" using False assms by (simp add: y_def)
    then have n1: "1 \<le> n" unfolding n_def by (simp add: less_ceiling_iff)
    have b: "2 ^ nat (bitlen n - 1) \<le> n" using bitlen_bounds [of n] n1 by simp
    have b1: "1 \<le> bitlen n" using n1 by (simp add: bitlen_alt_def)
    have "(2::rat) ^ nat (bitlen n - 1) = of_int (2 ^ nat (bitlen n - 1))" by simp
    also have "\<dots> \<le> of_int n" using b by (simp only: of_int_le_iff)
    also have "\<dots> < y" unfolding n_def by simp linarith
    finally have "2 ^ nat (bitlen n - 1) < y" .
    then have "x < 1 / 2 ^ nat (bitlen n - 1)"
      using assms by (simp add: y_def field_simps)
    moreover have "(2::rat) powi (- bitlen n + 1) = 1 / 2 ^ nat (bitlen n - 1)"
    proof -
      have "- bitlen n + 1 = - (bitlen n - 1)" by simp
      then have "(2::rat) powi (- bitlen n + 1) = 2 powi (- (bitlen n - 1))" by simp
      also have "\<dots> = 1 / 2 powi (bitlen n - 1)" by (rule power_int_minus_divide)
      also have "\<dots> = 1 / 2 ^ nat (bitlen n - 1)" using b1 by (simp add: power_int_def)
      finally show ?thesis .
    qed
    ultimately show ?thesis using False by (simp add: ilog2_def n_def y_def)
  qed
qed

lemma pow2_mono: "a \<le> b \<Longrightarrow> (2::rat) powi a \<le> 2 powi b"
  by (rule power_int_increasing) simp_all

lemma pow2_less_cancel: "(2::rat) powi a < 2 powi b \<Longrightarrow> a < b"
  using pow2_mono [of b a] by (cases "a < b") simp_all

lemma pow2_pos: "0 < (2::rat) powi a"
  by simp

lemma ilog2_unique:
  assumes "0 < x" and "2 powi k \<le> x" and "x < 2 powi (k + 1)"
  shows "ilog2 x = k"
proof -
  have "(2::rat) powi ilog2 x < 2 powi (k + 1)"
    using ilog2_bounds(1) [OF assms(1)] assms(3) by (rule le_less_trans)
  then have "ilog2 x < k + 1" by (rule pow2_less_cancel)
  moreover have "(2::rat) powi k < 2 powi (ilog2 x + 1)"
    using assms(2) ilog2_bounds(2) [OF assms(1)] by (rule le_less_trans)
  then have "k < ilog2 x + 1" by (rule pow2_less_cancel)
  ultimately show ?thesis by simp
qed

lemma rne_near: "of_int (rne q) \<le> q + 1 / 2" "q - 1 / 2 \<le> of_int (rne q)"
  unfolding rne_def Let_def by (simp_all, linarith+)

lemma rne_of_int [simp]: "rne (of_int k) = k"
  by (simp add: rne_def)

lemma rne_floor: "\<lfloor>q\<rfloor> \<le> rne q" "rne q \<le> \<lfloor>q\<rfloor> + 1"
  by (simp_all add: rne_def Let_def)

lemma rne_mono:
  assumes "q \<le> q'"
  shows "rne q \<le> rne q'"
proof (cases "\<lfloor>q\<rfloor> = \<lfloor>q'\<rfloor>")
  case True
  then show ?thesis using assms by (simp add: rne_def Let_def)
next
  case False
  have "\<lfloor>q\<rfloor> \<le> \<lfloor>q'\<rfloor>" using assms by (rule floor_mono)
  with False have "\<lfloor>q\<rfloor> + 1 \<le> \<lfloor>q'\<rfloor>" by simp
  then show ?thesis using rne_floor(2) [of q] rne_floor(1) [of q'] by linarith
qed

lemma rne_minus: "rne (- q) = - rne q"
proof (cases "q \<in> \<int>")
  case True
  then obtain k where "q = of_int k" by (auto elim: Ints_cases)
  then show ?thesis by (simp add: rne_def flip: of_int_minus)
next
  case False
  then have f: "\<lfloor>- q\<rfloor> = - \<lfloor>q\<rfloor> - 1"
    unfolding floor_minus ceiling_altdef by (auto elim: Ints_cases simp: Ints_def)
  show ?thesis unfolding rne_def Let_def f by (auto simp: field_simps)
qed

lemma ilog2_ge:
  assumes "0 < x" and "2 powi k \<le> x"
  shows "k \<le> ilog2 x"
proof -
  have "(2::rat) powi k < 2 powi (ilog2 x + 1)"
    using assms(2) ilog2_bounds(2) [OF assms(1)] by (rule le_less_trans)
  then have "k < ilog2 x + 1" by (rule pow2_less_cancel)
  then show ?thesis by simp
qed

lemma ilog2_less:
  assumes "0 < x" and "x < 2 powi k"
  shows "ilog2 x < k"
proof -
  have "(2::rat) powi ilog2 x < 2 powi k"
    using ilog2_bounds(1) [OF assms(1)] assms(2) by (rule le_less_trans)
  then show ?thesis by (rule pow2_less_cancel)
qed

lemma fexp_ge: "- 1074 \<le> fexp x"
  by (simp add: fexp_def)

lemma fexp_upper:
  assumes "x \<noteq> 0"
  shows "\<bar>x\<bar> < 2 powi (fexp x + 53)"
proof -
  have "\<bar>x\<bar> < 2 powi (ilog2 \<bar>x\<bar> + 1)" using assms by (intro ilog2_bounds(2)) simp
  also have "\<dots> \<le> 2 powi (fexp x + 53)" by (rule pow2_mono) (simp add: fexp_def)
  finally show ?thesis .
qed

lemma fexp_lower:
  assumes "x \<noteq> 0" and "- 1074 < fexp x"
  shows "2 powi (fexp x + 52) \<le> \<bar>x\<bar>"
proof -
  have "fexp x = ilog2 \<bar>x\<bar> - 52" using assms(2) by (simp add: fexp_def max_def split: if_splits)
  then have "(2::rat) powi (fexp x + 52) = 2 powi ilog2 \<bar>x\<bar>" by simp
  also have "\<dots> \<le> \<bar>x\<bar>" using assms(1) by (intro ilog2_bounds(1)) simp
  finally show ?thesis .
qed

lemma fexp_ge_of_le:
  assumes "2 powi k \<le> \<bar>x\<bar>"
  shows "k - 52 \<le> fexp x"
proof -
  have "0 < \<bar>x\<bar>" using assms pow2_pos [of k] by linarith
  then have "k \<le> ilog2 \<bar>x\<bar>" using assms by (rule ilog2_ge)
  then show ?thesis by (simp add: fexp_def)
qed

lemma fexp_le_of_less:
  assumes "x \<noteq> 0" and "\<bar>x\<bar> < 2 powi (k + 53)" and "- 1074 \<le> k"
  shows "fexp x \<le> k"
proof -
  have "ilog2 \<bar>x\<bar> < k + 53" using assms(1,2) by (intro ilog2_less) simp_all
  then show ?thesis using assms(3) by (simp add: fexp_def)
qed

lemma fexp_minus [simp]: "fexp (- x) = fexp x"
  by (simp add: fexp_def)

lemma rnd_zero [simp]: "rnd 0 = 0"
  by (simp add: rnd_def)

lemma rnd_minus: "rnd (- x) = - rnd x"
  by (simp add: rnd_def rne_minus)

lemma rnd_nonneg:
  assumes "0 \<le> x"
  shows "0 \<le> rnd x"
proof (cases "x = 0")
  case False
  have "0 \<le> x / 2 powi fexp x" using assms pow2_pos [of "fexp x"] by simp
  then have "rne 0 \<le> rne (x / 2 powi fexp x)" by (rule rne_mono)
  then have "0 \<le> rne (x / 2 powi fexp x)" by (simp add: rne_def)
  then show ?thesis using False pow2_pos [of "fexp x"] by (simp add: rnd_def)
qed simp

lemma rnd_mono_pos:
  assumes "0 < x" and "x \<le> y"
  shows "rnd x \<le> rnd y"
proof -
  have y0: "0 < y" using assms by simp
  have xn: "x \<noteq> 0" and yn: "y \<noteq> 0" using assms by simp_all
  have "ilog2 x \<le> ilog2 y"
    using ilog2_bounds(1) [OF assms(1)] assms(2) y0 by (intro ilog2_ge) simp_all
  then have ee: "fexp x \<le> fexp y" using assms(1) y0 by (simp add: fexp_def)
  show ?thesis
  proof (cases "fexp x = fexp y")
    case True
    have "x / 2 powi fexp y \<le> y / 2 powi fexp y"
      using assms(2) pow2_pos [of "fexp y"] by (simp add: divide_right_mono)
    then have "rne (x / 2 powi fexp y) \<le> rne (y / 2 powi fexp y)" by (rule rne_mono)
    then have "rat_of_int (rne (x / 2 powi fexp y)) \<le> of_int (rne (y / 2 powi fexp y))"
      by (simp only: of_int_le_iff)
    then have "of_int (rne (x / 2 powi fexp y)) * 2 powi fexp y
        \<le> of_int (rne (y / 2 powi fexp y)) * (2::rat) powi fexp y"
      using pow2_pos [of "fexp y"] by (simp add: mult_right_mono)
    then show ?thesis using True xn yn by (simp add: rnd_def)
  next
    case False
    with ee have lt: "fexp x + 1 \<le> fexp y" by simp
    have gy: "- 1074 < fexp y" using lt fexp_ge [of x] by simp
    let ?P = "(2::rat) powi (fexp y + 52)"
    have "x / 2 powi fexp x < 2 powi 53"
    proof -
      have "x < 2 powi (fexp x + 53)" using fexp_upper [OF xn] assms(1) by simp
      also have "\<dots> = 2 powi 53 * 2 powi fexp x" by (simp add: power_int_add)
      finally show ?thesis using pow2_pos [of "fexp x"] by (simp add: pos_divide_less_eq)
    qed
    then have "x / 2 powi fexp x \<le> of_int (2 ^ 53)" by simp
    then have "rne (x / 2 powi fexp x) \<le> rne (of_int (2 ^ 53))" by (rule rne_mono)
    then have "rne (x / 2 powi fexp x) \<le> 2 ^ 53" by (simp only: rne_of_int)
    then have "rat_of_int (rne (x / 2 powi fexp x)) \<le> of_int (2 ^ 53)"
      by (simp only: of_int_le_iff)
    then have "rat_of_int (rne (x / 2 powi fexp x)) \<le> 2 powi 53" by simp
    then have "of_int (rne (x / 2 powi fexp x)) * 2 powi fexp x \<le> 2 powi 53 * (2::rat) powi fexp x"
      using pow2_pos [of "fexp x"] by (intro mult_right_mono) simp_all
    also have "\<dots> = 2 powi (fexp x + 1 + 52)" by (simp add: power_int_add)
    also have "\<dots> \<le> ?P" using lt by (intro pow2_mono) simp
    finally have a: "rnd x \<le> ?P" using xn by (simp add: rnd_def)
    have "2 powi 52 \<le> y / 2 powi fexp y"
    proof -
      have "2 powi 52 * 2 powi fexp y = ?P" by (simp add: power_int_add)
      also have "\<dots> \<le> y" using fexp_lower [OF yn gy] y0 by simp
      finally show ?thesis using pow2_pos [of "fexp y"] by (simp add: pos_le_divide_eq)
    qed
    then have "of_int (2 ^ 52) \<le> y / 2 powi fexp y" by simp
    then have "rne (of_int (2 ^ 52)) \<le> rne (y / 2 powi fexp y)" by (rule rne_mono)
    then have "2 ^ 52 \<le> rne (y / 2 powi fexp y)" by (simp only: rne_of_int)
    then have "rat_of_int (2 ^ 52) \<le> of_int (rne (y / 2 powi fexp y))"
      by (simp only: of_int_le_iff)
    then have "2 powi 52 \<le> rat_of_int (rne (y / 2 powi fexp y))" by simp
    then have "2 powi 52 * (2::rat) powi fexp y \<le> of_int (rne (y / 2 powi fexp y)) * 2 powi fexp y"
      using pow2_pos [of "fexp y"] by (intro mult_right_mono) simp_all
    moreover have "2 powi 52 * (2::rat) powi fexp y = ?P" by (simp add: power_int_add)
    moreover have "rnd y = of_int (rne (y / 2 powi fexp y)) * 2 powi fexp y"
      using yn by (simp add: rnd_def)
    ultimately have b: "?P \<le> rnd y" by (simp only:)
    from a b show ?thesis by simp
  qed
qed

lemma rnd_mono:
  assumes "x \<le> y"
  shows "rnd x \<le> rnd y"
proof -
  consider "0 < x" | "x \<le> 0" "0 \<le> y" | "y < 0" by linarith
  then show ?thesis
  proof cases
    case 1
    then show ?thesis using assms by (rule rnd_mono_pos)
  next
    case 2
    have "rnd x = - rnd (- x)" by (simp add: rnd_minus)
    moreover have "0 \<le> rnd (- x)" using 2(1) by (intro rnd_nonneg) simp
    moreover have "0 \<le> rnd y" using 2(2) by (rule rnd_nonneg)
    ultimately show ?thesis by simp
  next
    case 3
    have "rnd (- y) \<le> rnd (- x)" using 3 assms by (intro rnd_mono_pos) simp_all
    then show ?thesis by (simp add: rnd_minus)
  qed
qed

lemma pow2_split:
  assumes "f \<le> e"
  shows "(2::rat) powi e = of_int (2 ^ nat (e - f)) * 2 powi f"
proof -
  define n where "n = nat (e - f)"
  have e: "e = int n + f" using assms by (simp add: n_def)
  have "(2::rat) powi (int n + f) = 2 powi int n * 2 powi f" by (rule power_int_add) simp
  also have "\<dots> = of_int (2 ^ n) * 2 powi f" by simp
  finally show ?thesis unfolding e n_def [symmetric] by simp
qed

lemma rnd_representable:
  assumes x: "x = of_int k * 2 powi e" and k: "\<bar>k\<bar> < 2 ^ 53" and e: "- 1074 \<le> e"
  shows "rnd x = x"
proof (cases "x = 0")
  case False
  have "\<bar>x\<bar> = of_int \<bar>k\<bar> * 2 powi e" using pow2_pos [of e] by (simp add: x abs_mult)
  also have "\<dots> < of_int (2 ^ 53) * 2 powi e"
    using k pow2_pos [of e] by (intro mult_strict_right_mono) (simp_all only: of_int_less_iff)
  also have "\<dots> = 2 powi (e + 53)" by (simp add: power_int_add)
  finally have "fexp x \<le> e" using False e by (intro fexp_le_of_less)
  then have p: "(2::rat) powi e = of_int (2 ^ nat (e - fexp x)) * 2 powi fexp x"
    by (rule pow2_split)
  have "x / 2 powi fexp x = of_int k * of_int (2 ^ nat (e - fexp x))"
    using pow2_pos [of "fexp x"] by (subst x, subst p) simp
  also have "\<dots> = of_int (k * 2 ^ nat (e - fexp x))" by simp
  finally have "rne (x / 2 powi fexp x) = k * 2 ^ nat (e - fexp x)" by (simp only: rne_of_int)
  then have "rnd x = of_int (k * 2 ^ nat (e - fexp x)) * 2 powi fexp x"
    using False by (simp add: rnd_def)
  also have "\<dots> = of_int k * (of_int (2 ^ nat (e - fexp x)) * 2 powi fexp x)" by simp
  also have "\<dots> = of_int k * 2 powi e" by (simp only: p [symmetric])
  also have "\<dots> = x" by (simp only: x)
  finally show ?thesis .
qed simp

lemma rne_numeral [simp]: "rne (numeral n) = numeral n"
  using rne_of_int [of "numeral n"] by (simp del: rne_of_int)

lemma rnd_rnd: "rnd (rnd x) = rnd x"
proof (cases "x = 0")
  case False
  let ?m = "rne (x / 2 powi fexp x)"
  have r: "rnd x = of_int ?m * 2 powi fexp x" using False by (simp add: rnd_def)
  have "\<bar>x / 2 powi fexp x\<bar> < 2 powi 53"
  proof -
    have "\<bar>x\<bar> < 2 powi (fexp x + 53)" by (rule fexp_upper [OF False])
    also have "\<dots> = 2 powi 53 * 2 powi fexp x" by (simp add: power_int_add)
    finally show ?thesis using pow2_pos [of "fexp x"] by (simp add: pos_divide_less_eq del: power_int_numeral)
  qed
  then have "- (2 powi 53) < x / 2 powi fexp x \<and> x / 2 powi fexp x < 2 powi 53"
    by (simp only: abs_less_iff) simp
  then have q1: "x / 2 powi fexp x \<le> of_int (2 ^ 53)"
    and q2: "of_int (- (2 ^ 53)) \<le> x / 2 powi fexp x"
    by simp_all
  have "?m \<le> 2 ^ 53" using rne_mono [OF q1] by (simp only: rne_of_int)
  moreover have "- (2 ^ 53) \<le> ?m" using rne_mono [OF q2] by (simp only: rne_of_int)
  ultimately have m: "\<bar>?m\<bar> \<le> 2 ^ 53" by linarith
  show ?thesis
  proof (cases "\<bar>?m\<bar> = 2 ^ 53")
    case True
    then consider "?m = 2 ^ 53" | "?m = - (2 ^ 53)" by linarith
    then show ?thesis
    proof cases
      case 1
      have "rnd x = of_int (2 ^ 52) * 2 powi (fexp x + 1)"
        unfolding r 1 by (simp add: power_int_add)
      moreover have "rnd (of_int (2 ^ 52) * 2 powi (fexp x + 1)) = of_int (2 ^ 52) * 2 powi (fexp x + 1)"
        using fexp_ge [of x] by (intro rnd_representable [OF refl]) simp_all
      ultimately show ?thesis by simp
    next
      case 2
      have "rnd x = of_int (- (2 ^ 52)) * 2 powi (fexp x + 1)"
        unfolding r 2 by (simp add: power_int_add)
      moreover have "rnd (of_int (- (2 ^ 52)) * 2 powi (fexp x + 1)) = of_int (- (2 ^ 52)) * 2 powi (fexp x + 1)"
        using fexp_ge [of x] by (intro rnd_representable [OF refl]) simp_all
      ultimately show ?thesis by simp
    qed
  next
    case False
    with m have "\<bar>?m\<bar> < 2 ^ 53" by simp
    then show ?thesis using fexp_ge [of x] unfolding r by (intro rnd_representable [OF refl])
  qed
qed simp

lemma double_grid:
  assumes "rnd t = t" and "2 powi k \<le> \<bar>t\<bar>"
  shows "\<exists>m. t = of_int m * 2 powi (k - 52)"
proof -
  have "0 < \<bar>t\<bar>" using assms(2) pow2_pos [of k] by linarith
  then have t0: "t \<noteq> 0" by simp
  have "k - 52 \<le> fexp t" using assms(2) by (rule fexp_ge_of_le)
  then have p: "(2::rat) powi fexp t = of_int (2 ^ nat (fexp t - (k - 52))) * 2 powi (k - 52)"
    by (rule pow2_split)
  have "t = of_int (rne (t / 2 powi fexp t)) * 2 powi fexp t"
    using assms(1) t0 by (simp add: rnd_def)
  also have "\<dots> = of_int (rne (t / 2 powi fexp t) * 2 ^ nat (fexp t - (k - 52))) * 2 powi (k - 52)"
    by (subst p) simp
  finally show ?thesis by blast
qed

lemma double_below:
  assumes "rnd t = t" and "2 powi k \<le> \<bar>t\<bar>" and "t < of_int M * 2 powi (k - 52)"
  shows "t \<le> of_int (M - 1) * 2 powi (k - 52)"
proof -
  obtain m where m: "t = of_int m * 2 powi (k - 52)" using double_grid [OF assms(1,2)] by blast
  have "rat_of_int m < of_int M" using assms(3) pow2_pos [of "k - 52"] unfolding m by simp
  then have "m \<le> M - 1" by simp
  then have "rat_of_int m \<le> of_int (M - 1)" by (simp only: of_int_le_iff)
  then show ?thesis unfolding m using pow2_pos [of "k - 52"] by (intro mult_right_mono) simp_all
qed

lemma double_above:
  assumes "rnd t = t" and "2 powi k \<le> \<bar>t\<bar>" and "of_int M * 2 powi (k - 52) < t"
  shows "of_int (M + 1) * 2 powi (k - 52) \<le> t"
proof -
  obtain m where m: "t = of_int m * 2 powi (k - 52)" using double_grid [OF assms(1,2)] by blast
  have "rat_of_int M < of_int m" using assms(3) pow2_pos [of "k - 52"] unfolding m by simp
  then have "M + 1 \<le> m" by simp
  then have "rat_of_int (M + 1) \<le> of_int m" by (simp only: of_int_le_iff)
  then show ?thesis unfolding m using pow2_pos [of "k - 52"] by (intro mult_right_mono) simp_all
qed

section \<open>Evaluation\<close>

text \<open>
  Rewrite rules that let the simplifier compute with the model on numerals: the bit length
  of a numeral, and floor and ceiling of a quotient of numerals.
\<close>

lemma bitlen_numeral_ev: "bitlen (numeral n) = bitlen (numeral n div 2) + 1"
  by (subst compute_bitlen) simp

lemma bitlen_one_ev: "bitlen 1 = 1"
  by (subst compute_bitlen) simp

lemma floor_rat_numeral_ev: "\<lfloor>numeral a / numeral b :: rat\<rfloor> = numeral a div numeral b"
  by (metis floor_divide_of_int_eq of_int_numeral)

lemma floor_rat_neg_numeral_ev:
  "\<lfloor>- (numeral a / numeral b) :: rat\<rfloor> = - numeral a div numeral b"
  by (metis divide_minus_left floor_divide_of_int_eq of_int_neg_numeral of_int_numeral)

lemma ceiling_rat_numeral_ev:
  "\<lceil>numeral a / numeral b :: rat\<rceil> = - (- numeral a div numeral b)"
  unfolding ceiling_def
  by (metis divide_minus_left floor_divide_of_int_eq of_int_neg_numeral of_int_numeral)

lemma ceiling_rat_neg_numeral_ev:
  "\<lceil>- (numeral a / numeral b) :: rat\<rceil> = - (numeral a div numeral b)"
  unfolding ceiling_def by (simp add: floor_rat_numeral_ev)

lemma floor_rat_one_div_ev: "\<lfloor>1 / numeral b :: rat\<rfloor> = 1 div numeral b"
  by (metis floor_divide_of_int_eq of_int_1 of_int_numeral)

lemma floor_rat_neg_one_div_ev: "\<lfloor>- (1 / numeral b) :: rat\<rfloor> = - 1 div numeral b"
  by (metis divide_minus_left floor_divide_of_int_eq of_int_1 of_int_minus of_int_numeral)

lemma ceiling_rat_one_div_ev: "\<lceil>1 / numeral b :: rat\<rceil> = - (- 1 div numeral b)"
  unfolding ceiling_def
  by (metis divide_minus_left floor_divide_of_int_eq of_int_1 of_int_minus of_int_numeral)

lemma ceiling_rat_neg_one_div_ev: "\<lceil>- (1 / numeral b) :: rat\<rceil> = - (1 div numeral b)"
  unfolding ceiling_def by (simp add: floor_rat_one_div_ev)

lemmas float_ev = rnd_def fexp_def ilog2_def rne_def Let_def bitlen_numeral_ev bitlen_one_ev
  float_lit_def float_of_int_def fadd_def fsub_def fmul_def fdiv_def int_truediv_def
  float_mod_def fmod_def trunc_def py_int_def
  floor_rat_numeral_ev floor_rat_neg_numeral_ev ceiling_rat_numeral_ev ceiling_rat_neg_numeral_ev
  floor_rat_one_div_ev floor_rat_neg_one_div_ev ceiling_rat_one_div_ev ceiling_rat_neg_one_div_ev

lemmas param_ev = FADE_START_def BRIGHTEN_START_def TRANSITION_TIME_def CYCLE_DURATION_def
  FPS_def NUM_DOTS_def PADDING_def DOT_SIZE_def DOT_SPACING_def WIDTH_def HEIGHT_def
  TOTAL_WIDTH_def

lemmas frame_ev = float_ev param_ev create_frame_def frame_time_def py_index_def py_range_def
  get_opacity_at_time_def image_new_def draw_ellipse_def upto.simps

lemma TRANSITION_TIME_eq: "TRANSITION_TIME = 3602879701896397 / 36028797018963968"
  by (simp add: float_ev param_ev split del: if_split)

lemma FADE_START_eq: "FADE_START = [0, 1 / 4, 1 / 2]"
  by (simp add: float_ev param_ev split del: if_split)

lemma BRIGHTEN_START_eq: "BRIGHTEN_START = [3 / 4, 1, 5 / 4]"
  by (simp add: float_ev param_ev split del: if_split)

lemma CYCLE_DURATION_eq: "CYCLE_DURATION = 3 / 2"
  by (simp add: float_ev param_ev split del: if_split)

lemma fade_end_eq:
  "fadd 0 TRANSITION_TIME = 3602879701896397 / 36028797018963968"
  "fadd (1 / 4) TRANSITION_TIME = 3152519739159347 / 9007199254740992"
  "fadd (1 / 2) TRANSITION_TIME = 5404319552844595 / 9007199254740992"
  by (simp_all add: float_ev param_ev split del: if_split)

lemma brighten_end_eq:
  "fadd (3 / 4) TRANSITION_TIME = 7656119366529843 / 9007199254740992"
  "fadd 1 TRANSITION_TIME = 2476979795053773 / 2251799813685248"
  "fadd (5 / 4) TRANSITION_TIME = 3039929748475085 / 2251799813685248"
  by (simp_all add: float_ev param_ev split del: if_split)

lemma float_lit_simple:
  "float_lit 0 = 0" "float_lit 1 = 1" "float_lit (5 / 10) = 1 / 2" "float_of_int 255 = 255"
  by (simp_all add: float_ev split del: if_split)

lemma TOTAL_FRAMES_eq: "TOTAL_FRAMES = 45"
  by (simp add: TOTAL_FRAMES_def float_ev param_ev split del: if_split)

lemma frame_duration_eq: "int_truediv 1000 FPS = Inr (4691249611844267 / 140737488355328)"
  by (simp add: float_ev param_ev split del: if_split)

lemma py_range_NUM_DOTS: "py_range NUM_DOTS = [0, 1, 2]"
  by (simp add: py_range_def NUM_DOTS_def upto.simps)

lemma py_index_dots:
  "py_index [a, b, c] 0 = Inr a" "py_index [a, b, c] 1 = Inr b" "py_index [a, b, c] 2 = Inr c"
  by (simp_all add: py_index_def)

lemma get_opacity_returns:
  assumes "i \<in> {0, 1, 2}"
  shows "\<exists>v. get_opacity_at_time i t = Inr v"
  using assms
  by (auto simp: get_opacity_at_time_def FADE_START_eq BRIGHTEN_START_eq py_index_dots fdiv_def
      TRANSITION_TIME_eq)

lemma create_frame_shape:
  assumes "create_frame n = Inr img"
  shows "canvas img = (WIDTH, HEIGHT)" and "background img = (0, 0, 0, 0)"
    and "map bbox (drawn img) =
      map (\<lambda>i. (PADDING + i * (DOT_SIZE + DOT_SPACING), PADDING,
                 PADDING + i * (DOT_SIZE + DOT_SPACING) + DOT_SIZE, PADDING + DOT_SIZE)) [0, 1, 2]"
  using assms
  by (auto simp: create_frame_def py_range_NUM_DOTS image_new_def draw_ellipse_def Let_def
      split: sum.splits)

lemma create_frame_0:
  "create_frame 0 = Inr \<lparr>canvas = (146, 34), background = (0, 0, 0, 0),
     drawn = [\<lparr>bbox = (2, 2, 32, 32), fill = (0, 0, 0, 255)\<rparr>,
              \<lparr>bbox = (58, 2, 88, 32), fill = (0, 0, 0, 255)\<rparr>,
              \<lparr>bbox = (114, 2, 144, 32), fill = (0, 0, 0, 255)\<rparr>]\<rparr>"
  by (simp add: frame_ev split del: if_split)

section \<open>Claims\<close>

text \<open>
  C10. Every dot is drawn entirely inside the canvas: in every frame that \<open>create_frame\<close>
  returns, the canvas is \<open>WIDTH\<close> by \<open>HEIGHT\<close>, that is 146 by 34, and the bounding box
  \<open>[x, y, x + DOT_SIZE, y + DOT_SIZE]\<close> of the dot with index \<open>i\<close>, where
  \<open>x = PADDING + i * (DOT_SIZE + DOT_SPACING)\<close> and \<open>y = PADDING\<close>, satisfies
  \<open>0 \<le> x\<close>, \<open>x + DOT_SIZE \<le> WIDTH\<close>, \<open>0 \<le> y\<close> and \<open>y + DOT_SIZE \<le> HEIGHT\<close>. The
  upper bounds are even strict, so the last row and column of the box, which the imaging
  library paints too, are pixels of the canvas.
\<close>

theorem dots_inside_canvas:
  assumes "create_frame n = Inr img" and "i \<in> {0, 1, 2}"
  shows "canvas img = (WIDTH, HEIGHT) \<and> WIDTH = 146 \<and> HEIGHT = 34 \<and>
    (let x = PADDING + i * (DOT_SIZE + DOT_SPACING); y = PADDING
     in bbox (drawn img ! nat i) = (x, y, x + DOT_SIZE, y + DOT_SIZE) \<and>
        0 \<le> x \<and> x + DOT_SIZE \<le> WIDTH \<and> x + DOT_SIZE < WIDTH \<and>
        0 \<le> y \<and> y + DOT_SIZE \<le> HEIGHT \<and> y + DOT_SIZE < HEIGHT)"
proof -
  have len: "length (drawn img) = 3"
    using create_frame_shape(3) [OF assms(1)] by (simp flip: length_map [of bbox])
  have "bbox (drawn img ! nat i) = map bbox (drawn img) ! nat i"
    using len assms(2) by (intro nth_map [symmetric]) auto
  then have "bbox (drawn img ! nat i) =
      (PADDING + i * (DOT_SIZE + DOT_SPACING), PADDING,
       PADDING + i * (DOT_SIZE + DOT_SPACING) + DOT_SIZE, PADDING + DOT_SIZE)"
    using assms(2) unfolding create_frame_shape(3) [OF assms(1)] by auto
  then show ?thesis
    using assms(2) create_frame_shape(1) [OF assms(1)]
    by (auto simp: Let_def param_ev)
qed

theorem dots_inside_canvas_witness:
  "create_frame 0 = Inr \<lparr>canvas = (146, 34), background = (0, 0, 0, 0),
     drawn = [\<lparr>bbox = (2, 2, 32, 32), fill = (0, 0, 0, 255)\<rparr>,
              \<lparr>bbox = (58, 2, 88, 32), fill = (0, 0, 0, 255)\<rparr>,
              \<lparr>bbox = (114, 2, 144, 32), fill = (0, 0, 0, 255)\<rparr>]\<rparr> \<and>
   (2::int) \<in> {0, 1, 2} \<and> (114::int) + 30 < 146 \<and> WIDTH = 146"
  using dots_inside_canvas [OF create_frame_0, of 2]
  by (simp add: create_frame_0 Let_def param_ev)

text \<open>
  C3. Each frame depicts exactly three dots, drawn left to right at the x-positions
  \<open>PADDING + i * (DOT_SIZE + DOT_SPACING)\<close> for \<open>i = 0, 1, 2\<close>, and the animation is
  sequential from left to right: the fade start times and the brighten start times are
  strictly increasing in the dot index, and every fade start precedes every brighten start.
\<close>

theorem three_dots_left_to_right:
  assumes "create_frame n = Inr img"
  shows "length (drawn img) = 3 \<and>
    (\<forall>i \<in> {0, 1, 2}. fst (bbox (drawn img ! nat i)) = PADDING + i * (DOT_SIZE + DOT_SPACING)) \<and>
    fst (bbox (drawn img ! 0)) < fst (bbox (drawn img ! 1)) \<and>
    fst (bbox (drawn img ! 1)) < fst (bbox (drawn img ! 2)) \<and>
    length FADE_START = 3 \<and> length BRIGHTEN_START = 3 \<and>
    FADE_START ! 0 < FADE_START ! 1 \<and> FADE_START ! 1 < FADE_START ! 2 \<and>
    BRIGHTEN_START ! 0 < BRIGHTEN_START ! 1 \<and> BRIGHTEN_START ! 1 < BRIGHTEN_START ! 2 \<and>
    (\<forall>i \<in> {0, 1, 2}. \<forall>j \<in> {0, 1, 2}. FADE_START ! i < BRIGHTEN_START ! j)"
proof -
  obtain e0 e1 e2 where "drawn img = [e0, e1, e2]" and "bbox e0 = (2, 2, 32, 32)"
    and "bbox e1 = (58, 2, 88, 32)" and "bbox e2 = (114, 2, 144, 32)"
    using create_frame_shape(3) [OF assms] by (auto simp: map_eq_Cons_conv param_ev)
  then show ?thesis
    by (simp add: FADE_START_eq BRIGHTEN_START_eq param_ev)
qed

theorem three_dots_left_to_right_witness:
  "create_frame 0 = Inr \<lparr>canvas = (146, 34), background = (0, 0, 0, 0),
     drawn = [\<lparr>bbox = (2, 2, 32, 32), fill = (0, 0, 0, 255)\<rparr>,
              \<lparr>bbox = (58, 2, 88, 32), fill = (0, 0, 0, 255)\<rparr>,
              \<lparr>bbox = (114, 2, 144, 32), fill = (0, 0, 0, 255)\<rparr>]\<rparr> \<and>
   (1::int) \<in> {0, 1, 2} \<and> PADDING + 1 * (DOT_SIZE + DOT_SPACING) = 58 \<and>
   FADE_START ! 2 < BRIGHTEN_START ! 0"
  using three_dots_left_to_right [OF create_frame_0]
  by (simp add: create_frame_0 param_ev FADE_START_eq BRIGHTEN_START_eq)

lemma float_lit_tenth: "float_lit (1 / 10) = 3602879701896397 / 36028797018963968"
  using TRANSITION_TIME_eq by (simp add: TRANSITION_TIME_def)

lemma float_lit_half: "float_lit (1 / 2) = 1 / 2"
  using float_lit_simple(3) by simp

lemmas end_eq = fade_end_eq [unfolded TRANSITION_TIME_eq] brighten_end_eq [unfolded TRANSITION_TIME_eq]

lemma get_opacity_0:
  "get_opacity_at_time 0 t =
     (if t < 0 then Inr 1
      else if t < 3602879701896397 / 36028797018963968 then
        Inr (fsub 1 (fmul (1 / 2) (rnd (fsub t 0 / (3602879701896397 / 36028797018963968)))))
      else if t < 3 / 4 then Inr (1 / 2)
      else if t < 7656119366529843 / 9007199254740992 then
        Inr (fadd (1 / 2) (fmul (1 / 2) (rnd (fsub t (3 / 4) / (3602879701896397 / 36028797018963968)))))
      else Inr 1)"
  by (simp add: get_opacity_at_time_def FADE_START_eq BRIGHTEN_START_eq py_index_dots fdiv_def
      TRANSITION_TIME_eq end_eq float_lit_simple float_lit_half)

lemma get_opacity_1:
  "get_opacity_at_time 1 t =
     (if t < 1 / 4 then Inr 1
      else if t < 3152519739159347 / 9007199254740992 then
        Inr (fsub 1 (fmul (1 / 2) (rnd (fsub t (1 / 4) / (3602879701896397 / 36028797018963968)))))
      else if t < 1 then Inr (1 / 2)
      else if t < 2476979795053773 / 2251799813685248 then
        Inr (fadd (1 / 2) (fmul (1 / 2) (rnd (fsub t 1 / (3602879701896397 / 36028797018963968)))))
      else Inr 1)"
  by (simp add: get_opacity_at_time_def FADE_START_eq BRIGHTEN_START_eq py_index_dots fdiv_def
      TRANSITION_TIME_eq end_eq float_lit_simple float_lit_half)

lemma get_opacity_2:
  "get_opacity_at_time 2 t =
     (if t < 1 / 2 then Inr 1
      else if t < 5404319552844595 / 9007199254740992 then
        Inr (fsub 1 (fmul (1 / 2) (rnd (fsub t (1 / 2) / (3602879701896397 / 36028797018963968)))))
      else if t < 5 / 4 then Inr (1 / 2)
      else if t < 3039929748475085 / 2251799813685248 then
        Inr (fadd (1 / 2) (fmul (1 / 2) (rnd (fsub t (5 / 4) / (3602879701896397 / 36028797018963968)))))
      else Inr 1)"
  by (simp add: get_opacity_at_time_def FADE_START_eq BRIGHTEN_START_eq py_index_dots fdiv_def
      TRANSITION_TIME_eq end_eq float_lit_simple float_lit_half)

lemma rnd_fixed:
  "rnd 1 = 1" "rnd (1 / 2) = 1 / 2" "rnd 255 = 255" "rnd (255 / 2) = 255 / 2"
  "rnd (3602879701896397 / 36028797018963968) = 3602879701896397 / 36028797018963968"
  by (simp_all add: float_ev split del: if_split)

lemma progress_range:
  assumes "0 \<le> x" and "x \<le> 3602879701896397 / 36028797018963968"
  shows "0 \<le> rnd (x / (3602879701896397 / 36028797018963968))"
    and "rnd (x / (3602879701896397 / 36028797018963968)) \<le> 1"
proof -
  let ?q = "x / (3602879701896397 / 36028797018963968)"
  have "0 \<le> ?q" using assms(1) by simp
  then show "0 \<le> rnd ?q" by (rule rnd_nonneg)
  have "?q \<le> 1" using assms(2) by simp
  then have "rnd ?q \<le> rnd 1" by (rule rnd_mono)
  then show "rnd ?q \<le> 1" by (simp only: rnd_fixed)
qed

lemma half_range:
  assumes "0 \<le> p" and "p \<le> 1"
  shows "0 \<le> fmul (1 / 2) p" and "fmul (1 / 2) p \<le> 1 / 2"
proof -
  have "0 \<le> 1 / 2 * p" using assms(1) by simp
  then show "0 \<le> fmul (1 / 2) p" unfolding fmul_def by (rule rnd_nonneg)
  have "1 / 2 * p \<le> 1 / 2" using assms(2) by simp
  then have "rnd (1 / 2 * p) \<le> rnd (1 / 2)" by (rule rnd_mono)
  then show "fmul (1 / 2) p \<le> 1 / 2" unfolding fmul_def by (simp only: rnd_fixed)
qed

lemma fade_value_range:
  assumes "0 \<le> p" and "p \<le> 1"
  shows "1 / 2 \<le> fsub 1 (fmul (1 / 2) p)" and "fsub 1 (fmul (1 / 2) p) \<le> 1"
proof -
  note h = half_range [OF assms]
  have "rnd (1 / 2) \<le> rnd (1 - fmul (1 / 2) p)" using h(2) by (intro rnd_mono) simp
  then show "1 / 2 \<le> fsub 1 (fmul (1 / 2) p)" unfolding fsub_def by (simp only: rnd_fixed)
  have "rnd (1 - fmul (1 / 2) p) \<le> rnd 1" using h(1) by (intro rnd_mono) simp
  then show "fsub 1 (fmul (1 / 2) p) \<le> 1" unfolding fsub_def by (simp only: rnd_fixed)
qed

lemma brighten_value_range:
  assumes "0 \<le> p" and "p \<le> 1"
  shows "1 / 2 \<le> fadd (1 / 2) (fmul (1 / 2) p)" and "fadd (1 / 2) (fmul (1 / 2) p) \<le> 1"
proof -
  note h = half_range [OF assms]
  have "rnd (1 / 2) \<le> rnd (1 / 2 + fmul (1 / 2) p)" using h(1) by (intro rnd_mono) simp
  then show "1 / 2 \<le> fadd (1 / 2) (fmul (1 / 2) p)" unfolding fadd_def by (simp only: rnd_fixed)
  have "rnd (1 / 2 + fmul (1 / 2) p) \<le> rnd 1" using h(2) by (intro rnd_mono) simp
  then show "fadd (1 / 2) (fmul (1 / 2) p) \<le> 1" unfolding fadd_def by (simp only: rnd_fixed)
qed

lemma alpha_range:
  assumes "1 / 2 \<le> v" and "v \<le> 1"
  shows "127 \<le> py_int (fmul v (float_of_int 255))" and "py_int (fmul v (float_of_int 255)) \<le> 255"
proof -
  have a: "rnd (255 / 2) \<le> rnd (v * 255)" using assms(1) by (intro rnd_mono) simp
  have b: "rnd (v * 255) \<le> rnd 255" using assms(2) by (intro rnd_mono) simp
  have lo: "255 / 2 \<le> rnd (v * 255)" using a by (simp only: rnd_fixed)
  have hi: "rnd (v * 255) \<le> 255" using b by (simp only: rnd_fixed)
  have f: "py_int (fmul v (float_of_int 255)) = \<lfloor>rnd (v * 255)\<rfloor>"
    using lo by (simp add: py_int_def trunc_def fmul_def float_lit_simple)
  have "(127::rat) \<le> rnd (v * 255)" using lo by simp
  then have "127 \<le> \<lfloor>rnd (v * 255)\<rfloor>" by (simp add: le_floor_iff)
  then show "127 \<le> py_int (fmul v (float_of_int 255))" by (simp only: f)
  have "\<lfloor>rnd (v * 255)\<rfloor> \<le> \<lfloor>255::rat\<rfloor>" using hi by (rule floor_mono)
  then show "py_int (fmul v (float_of_int 255)) \<le> 255" by (simp add: f)
qed

lemma elapsed_range:
  assumes "F \<le> t" and "t - F \<le> 3602879701896397 / 36028797018963968"
  shows "0 \<le> fsub t F" and "fsub t F \<le> 3602879701896397 / 36028797018963968"
proof -
  have "0 \<le> t - F" using assms(1) by simp
  then show "0 \<le> fsub t F" unfolding fsub_def by (rule rnd_nonneg)
  have "rnd (t - F) \<le> rnd (3602879701896397 / 36028797018963968)"
    using assms(2) by (rule rnd_mono)
  then show "fsub t F \<le> 3602879701896397 / 36028797018963968"
    unfolding fsub_def by (simp only: rnd_fixed)
qed

lemma fade_branch_range:
  assumes "F \<le> t" and "t - F \<le> 3602879701896397 / 36028797018963968"
  shows "1 / 2 \<le> fsub 1 (fmul (1 / 2) (rnd (fsub t F / (3602879701896397 / 36028797018963968))))"
    and "fsub 1 (fmul (1 / 2) (rnd (fsub t F / (3602879701896397 / 36028797018963968)))) \<le> 1"
  using fade_value_range [OF progress_range [OF elapsed_range [OF assms]]] by simp_all

lemma brighten_branch_range:
  assumes "F \<le> t" and "t - F \<le> 3602879701896397 / 36028797018963968"
  shows "1 / 2 \<le> fadd (1 / 2) (fmul (1 / 2) (rnd (fsub t F / (3602879701896397 / 36028797018963968))))"
    and "fadd (1 / 2) (fmul (1 / 2) (rnd (fsub t F / (3602879701896397 / 36028797018963968)))) \<le> 1"
  using brighten_value_range [OF progress_range [OF elapsed_range [OF assms]]] by simp_all

lemma double_below_one:
  assumes "rnd t = t" and "1 \<le> t" and "t < of_int M / 4503599627370496"
  shows "t \<le> of_int (M - 1) / 4503599627370496"
proof -
  have "2 powi 0 \<le> \<bar>t\<bar>" using assms(2) by simp
  moreover have "t < of_int M * 2 powi (0 - 52)" using assms(3) by (simp add: power_int_minus_divide)
  ultimately have "t \<le> of_int (M - 1) * 2 powi (0 - 52)" by (rule double_below [OF assms(1)])
  then show ?thesis by (simp add: power_int_minus_divide)
qed

lemma opacity_range_0:
  "case get_opacity_at_time 0 t of Inl e \<Rightarrow> False | Inr v \<Rightarrow> 1 / 2 \<le> v \<and> v \<le> 1"
proof -
  have f: "t - 0 \<le> 3602879701896397 / 36028797018963968"
    if "t < 3602879701896397 / 36028797018963968" using that by simp
  have b: "t - 3 / 4 \<le> 3602879701896397 / 36028797018963968"
    if "t < 7656119366529843 / 9007199254740992" using that by simp
  show ?thesis unfolding get_opacity_0
    using fade_branch_range [of 0 t] brighten_branch_range [of "3 / 4" t] f b
    by (auto simp: not_less)
qed

lemma opacity_range_1:
  assumes "rnd t = t"
  shows "case get_opacity_at_time 1 t of Inl e \<Rightarrow> False | Inr v \<Rightarrow> 1 / 2 \<le> v \<and> v \<le> 1"
proof -
  have f: "t - 1 / 4 \<le> 3602879701896397 / 36028797018963968"
    if "t < 3152519739159347 / 9007199254740992" using that by simp
  have b: "t - 1 \<le> 3602879701896397 / 36028797018963968"
    if "1 \<le> t" "t < 2476979795053773 / 2251799813685248"
  proof -
    have "t < of_int 4953959590107546 / 4503599627370496" using that(2) by simp
    then have "t \<le> of_int (4953959590107546 - 1) / 4503599627370496"
      by (rule double_below_one [OF assms that(1)])
    then show ?thesis by simp
  qed
  show ?thesis unfolding get_opacity_1
    using fade_branch_range [of "1 / 4" t] brighten_branch_range [of 1 t] f b
    by (auto simp: not_less)
qed

lemma opacity_range_2:
  assumes "rnd t = t"
  shows "case get_opacity_at_time 2 t of Inl e \<Rightarrow> False | Inr v \<Rightarrow> 1 / 2 \<le> v \<and> v \<le> 1"
proof -
  have f: "t - 1 / 2 \<le> 3602879701896397 / 36028797018963968"
    if "t < 5404319552844595 / 9007199254740992" using that by simp
  have b: "t - 5 / 4 \<le> 3602879701896397 / 36028797018963968"
    if "5 / 4 \<le> t" "t < 3039929748475085 / 2251799813685248"
  proof -
    have "1 \<le> t" using that(1) by simp
    moreover have "t < of_int 6079859496950170 / 4503599627370496" using that(2) by simp
    ultimately have "t \<le> of_int (6079859496950170 - 1) / 4503599627370496"
      by (rule double_below_one [OF assms])
    then show ?thesis by simp
  qed
  show ?thesis unfolding get_opacity_2
    using fade_branch_range [of "1 / 2" t] brighten_branch_range [of "5 / 4" t] f b
    by (auto simp: not_less)
qed

lemma rnd_form:
  assumes "x \<noteq> 0"
  shows "rnd x = of_int (rne (x / 2 powi fexp x)) * 2 powi fexp x"
  using assms by (simp add: rnd_def)

lemma rne_abs_le:
  assumes "x \<noteq> 0"
  shows "\<bar>rne (x / 2 powi fexp x)\<bar> \<le> 2 ^ 53"
proof -
  have "\<bar>x\<bar> < 2 powi (fexp x + 53)" by (rule fexp_upper [OF assms])
  also have "\<dots> = 2 powi 53 * 2 powi fexp x" by (simp add: power_int_add)
  finally have "\<bar>x / 2 powi fexp x\<bar> < 2 powi 53"
    using pow2_pos [of "fexp x"] by (simp add: pos_divide_less_eq del: power_int_numeral)
  then have "- (2 powi 53) < x / 2 powi fexp x \<and> x / 2 powi fexp x < 2 powi 53"
    by (simp only: abs_less_iff) simp
  then have q1: "x / 2 powi fexp x \<le> of_int (2 ^ 53)"
    and q2: "of_int (- (2 ^ 53)) \<le> x / 2 powi fexp x"
    by simp_all
  have "rne (x / 2 powi fexp x) \<le> 2 ^ 53" using rne_mono [OF q1] by (simp only: rne_of_int)
  moreover have "- (2 ^ 53) \<le> rne (x / 2 powi fexp x)"
    using rne_mono [OF q2] by (simp only: rne_of_int)
  ultimately show ?thesis by linarith
qed

lemma fmod_double:
  assumes q: "rnd q = q" and q0: "0 < q" and m0: "0 < fmod q (3 / 2)"
  shows "rnd (fmod q (3 / 2)) = fmod q (3 / 2)"
proof -
  define f where "f = fexp q"
  define k where "k = rne (q / 2 powi f)"
  define j where "j = \<lfloor>q / (3 / 2)\<rfloor>"
  define m where "m = fmod q (3 / 2)"
  have qn: "q \<noteq> 0" using q0 by simp
  have qk: "q = of_int k * 2 powi f" using rnd_form [OF qn] q by (simp add: k_def f_def)
  have k53: "\<bar>k\<bar> \<le> 2 ^ 53" unfolding k_def f_def by (rule rne_abs_le [OF qn])
  have f74: "- 1074 \<le> f" unfolding f_def by (rule fexp_ge)
  have m: "m = q - of_int j * (3 / 2)" using q0 by (simp add: m_def fmod_def trunc_def j_def)
  have j0: "0 \<le> j" using q0 by (simp add: j_def)
  have mq: "m \<le> q" using j0 by (simp add: m)
  have m32: "m < 3 / 2"
  proof -
    have "q / (3 / 2) < of_int j + 1" unfolding j_def by linarith
    then show ?thesis by (simp add: m field_simps)
  qed
  have mpos: "0 < m" using m0 by (simp add: m_def)
  show ?thesis
  proof (cases "- 1 \<le> f")
    case True
    have p: "(2::rat) powi f = of_int (2 ^ nat (f - (- 1))) * 2 powi (- 1)"
      using True by (rule pow2_split)
    define a where "a = k * 2 ^ nat (f - (- 1)) - 3 * j"
    have ma: "m = of_int a * 2 powi (- 1)"
      unfolding m qk p a_def by (simp add: field_simps)
    have "0 < rat_of_int a" using mpos unfolding ma by simp
    moreover have "rat_of_int a < 3" using m32 unfolding ma by simp
    ultimately have "0 < a" "a < 3" by simp_all
    then have "\<bar>a\<bar> < 2 ^ 53" by simp
    then have "rnd m = m" using ma by (intro rnd_representable [of m a "- 1"]) simp_all
    then show ?thesis by (simp only: m_def)
  next
    case False
    then have fl: "f \<le> - 1" by simp
    have p: "(2::rat) powi (- 1) = of_int (2 ^ nat (- 1 - f)) * 2 powi f"
      using fl by (rule pow2_split)
    define a where "a = k - 3 * j * 2 ^ nat (- 1 - f)"
    have "3 / 2 = 3 * (2::rat) powi (- 1)" by simp
    also have "\<dots> = 3 * (of_int (2 ^ nat (- 1 - f)) * 2 powi f)" by (simp only: p)
    finally have h: "(3::rat) / 2 = 3 * (of_int (2 ^ nat (- 1 - f)) * 2 powi f)" .
    have ma: "m = of_int a * 2 powi f"
      unfolding m a_def by (subst h, subst (1) qk) (simp add: algebra_simps)
    have "0 < rat_of_int a" using mpos pow2_pos [of f] unfolding ma by (simp add: zero_less_mult_iff)
    then have a0: "0 < a" by simp
    have "rat_of_int a * 2 powi f \<le> of_int k * 2 powi f" using mq unfolding ma qk .
    then have "rat_of_int a \<le> of_int k" using pow2_pos [of f] by simp
    then have ak: "a \<le> k" by simp
    show ?thesis
    proof (cases "a = k")
      case True
      then have "m = q" by (simp add: ma qk)
      then show ?thesis using q by (simp add: m_def)
    next
      case False
      then have "\<bar>a\<bar> < 2 ^ 53" using ak a0 k53 by simp
      then have "rnd m = m" using ma f74 by (intro rnd_representable [of m a f])
      then show ?thesis by (simp only: m_def)
    qed
  qed
qed

lemma trunc_fraction:
  "0 \<le> r \<Longrightarrow> 0 \<le> r - of_int (trunc r) \<and> r - of_int (trunc r) < 1"
  "r \<le> 0 \<Longrightarrow> - 1 < r - of_int (trunc r) \<and> r - of_int (trunc r) \<le> 0"
  unfolding trunc_def by (simp_all; linarith)+

lemma fmod_sign:
  shows "0 < fmod q (3 / 2) \<Longrightarrow> 0 < q" and "fmod q (3 / 2) < 0 \<Longrightarrow> - (3 / 2) < fmod q (3 / 2)"
    and "fmod q (3 / 2) < 3 / 2"
proof -
  define r where "r = q / (3 / 2)"
  define d where "d = r - of_int (trunc r)"
  have q: "q = r * (3 / 2)" by (simp add: r_def)
  have "fmod q (3 / 2) = q - of_int (trunc r) * (3 / 2)" unfolding fmod_def r_def ..
  also have "\<dots> = d * (3 / 2)" unfolding q d_def by (simp add: algebra_simps)
  finally have m: "fmod q (3 / 2) = d * (3 / 2)" .
  have pos: "0 \<le> d \<and> d < 1" if "0 \<le> r" using trunc_fraction(1) [OF that] by (simp add: d_def)
  have neg: "- 1 < d \<and> d \<le> 0" if "r \<le> 0" using trunc_fraction(2) [OF that] by (simp add: d_def)
  show "0 < fmod q (3 / 2) \<Longrightarrow> 0 < q"
  proof -
    assume "0 < fmod q (3 / 2)"
    then have "0 < d" by (simp add: m)
    then have "\<not> r \<le> 0" using neg by auto
    then show "0 < q" by (simp add: q)
  qed
  show "fmod q (3 / 2) < 0 \<Longrightarrow> - (3 / 2) < fmod q (3 / 2)"
  proof -
    assume "fmod q (3 / 2) < 0"
    then have "d < 0" by (simp add: m)
    then have "\<not> 0 \<le> r" using pos by auto
    then have "- 1 < d" using neg by simp
    then show "- (3 / 2) < fmod q (3 / 2)" by (simp add: m)
  qed
  show "fmod q (3 / 2) < 3 / 2"
  proof -
    have "d < 1" using pos neg by (cases "0 \<le> r") auto
    then show ?thesis by (simp add: m)
  qed
qed

lemma rnd_three_halves: "rnd (3 / 2) = 3 / 2"
  by (simp add: float_ev split del: if_split)

lemma frame_time_double:
  assumes "frame_time n = Inr t"
  shows "rnd t = t" and "0 \<le> t" and "t \<le> 3 / 2"
proof -
  define q where "q = rnd (of_int n / of_int FPS)"
  define m where "m = fmod q (3 / 2)"
  have qq: "rnd q = q" unfolding q_def by (rule rnd_rnd)
  have t: "t = (if m \<noteq> 0 then (if m < 0 then fadd m (3 / 2) else m) else 0)"
    using assms
    by (auto simp: frame_time_def int_truediv_def FPS_def float_mod_def CYCLE_DURATION_eq
        Let_def q_def m_def split: if_splits)
  consider "m = 0" | "0 < m" | "m < 0" by linarith
  then have "rnd t = t \<and> 0 \<le> t \<and> t \<le> 3 / 2"
  proof cases
    case 1
    then show ?thesis by (simp add: t)
  next
    case 2
    then have "0 < q" unfolding m_def by (rule fmod_sign(1))
    then have "rnd m = m" using 2 unfolding m_def by (intro fmod_double [OF qq])
    moreover have "m < 3 / 2" unfolding m_def by (rule fmod_sign(3))
    ultimately show ?thesis using 2 by (simp add: t)
  next
    case 3
    have tt: "t = rnd (m + 3 / 2)" using 3 by (simp add: t fadd_def)
    have "- (3 / 2) < m" using 3 unfolding m_def by (rule fmod_sign(2))
    then have "0 \<le> rnd (m + 3 / 2)" by (intro rnd_nonneg) simp
    moreover have "rnd (m + 3 / 2) \<le> rnd (3 / 2)" using 3 by (intro rnd_mono) simp
    ultimately show ?thesis unfolding tt by (simp add: rnd_rnd rnd_three_halves)
  qed
  then show "rnd t = t" and "0 \<le> t" and "t \<le> 3 / 2" by simp_all
qed

lemma opacity_range:
  assumes "i \<in> {0, 1, 2}" and "rnd t = t"
  shows "\<exists>v. get_opacity_at_time i t = Inr v \<and> 1 / 2 \<le> v \<and> v \<le> 1"
proof -
  have "case get_opacity_at_time i t of Inl e \<Rightarrow> False | Inr v \<Rightarrow> 1 / 2 \<le> v \<and> v \<le> 1"
    using assms opacity_range_0 [of t] opacity_range_1 [of t] opacity_range_2 [of t] by auto
  then show ?thesis by (cases "get_opacity_at_time i t") simp_all
qed

lemma draw_dots_fill:
  assumes "draw_dots t dots img = Inr img'" and "set dots \<subseteq> {0, 1, 2}" and "rnd t = t"
    and "\<forall>e \<in> set (drawn img). \<exists>a. fill e = (0, 0, 0, a) \<and> 127 \<le> a \<and> a \<le> 255"
  shows "\<forall>e \<in> set (drawn img'). \<exists>a. fill e = (0, 0, 0, a) \<and> 127 \<le> a \<and> a \<le> 255"
  using assms
proof (induction dots arbitrary: img)
  case Nil
  then show ?case by simp
next
  case (Cons i rest)
  have i: "i \<in> {0, 1, 2}" using Cons.prems(2) by simp
  obtain v where v: "get_opacity_at_time i t = Inr v" and r: "1 / 2 \<le> v" "v \<le> 1"
    using opacity_range [OF i Cons.prems(3)] by blast
  let ?img = "draw_ellipse (PADDING + i * (DOT_SIZE + DOT_SPACING), PADDING,
      PADDING + i * (DOT_SIZE + DOT_SPACING) + DOT_SIZE, PADDING + DOT_SIZE)
      (0, 0, 0, py_int (fmul v (float_of_int 255))) img"
  have step: "draw_dots t rest ?img = Inr img'" using Cons.prems(1) v by (simp add: Let_def)
  have "\<forall>e \<in> set (drawn ?img). \<exists>a. fill e = (0, 0, 0, a) \<and> 127 \<le> a \<and> a \<le> 255"
    using Cons.prems(4) alpha_range [OF r] by (simp add: draw_ellipse_def)
  then show ?case using Cons.prems(2,3) by (intro Cons.IH [OF step]) simp_all
qed

lemma create_frame_fill:
  assumes "create_frame n = Inr img"
  shows "\<forall>e \<in> set (drawn img). \<exists>a. fill e = (0, 0, 0, a) \<and> 127 \<le> a \<and> a \<le> 255"
proof -
  obtain t where t: "frame_time n = Inr t"
    and d: "draw_dots t [0, 1, 2] (image_new (WIDTH, HEIGHT) (0, 0, 0, 0)) = Inr img"
    using assms by (auto simp: create_frame_def py_range_NUM_DOTS Let_def split: sum.splits)
  show ?thesis
    using frame_time_double(1) [OF t]
    by (intro draw_dots_fill [OF d]) (simp_all add: image_new_def)
qed

text \<open>
  C8. The opacity stays in range: for every dot index \<open>i\<close> in \<open>{0, 1, 2}\<close> and every
  nonnegative time \<open>t\<close>, a double, \<open>get_opacity_at_time i t\<close> returns a value in the closed
  interval from 0.5 to 1.0, and the alpha channel \<open>int(opacity * 255)\<close> made of it lies between
  127 and 255; so does the alpha channel of every dot drawn in any frame that
  \<open>create_frame\<close> returns, whose time is such a double.
\<close>

theorem opacity_in_range:
  assumes "i \<in> {0, 1, 2}" and "is_double t" and "0 \<le> t"
  shows "(\<exists>v. get_opacity_at_time i t = Inr v \<and> 1 / 2 \<le> v \<and> v \<le> 1 \<and>
      127 \<le> py_int (fmul v (float_of_int 255)) \<and> py_int (fmul v (float_of_int 255)) \<le> 255) \<and>
    (\<forall>n img. create_frame n = Inr img \<longrightarrow>
      (\<forall>e \<in> set (drawn img). \<exists>a. fill e = (0, 0, 0, a) \<and> 127 \<le> a \<and> a \<le> 255))"
proof -
  have "rnd t = t" using assms(2) by (simp add: is_double_def)
  then obtain v where "get_opacity_at_time i t = Inr v" and "1 / 2 \<le> v" and "v \<le> 1"
    using opacity_range [OF assms(1)] by blast
  then show ?thesis using alpha_range [of v] create_frame_fill by blast
qed

theorem opacity_in_range_witness:
  "(1::int) \<in> {0, 1, 2} \<and> is_double (17 / 16) \<and> (0::rat) \<le> 17 / 16 \<and>
   get_opacity_at_time 1 (17 / 16) = Inr (13 / 16) \<and> (1::rat) / 2 \<le> 13 / 16 \<and>
   py_int (fmul (13 / 16) (float_of_int 255)) = 207"
proof -
  have d: "is_double (17 / 16)" by (simp add: is_double_def float_ev split del: if_split)
  have g: "get_opacity_at_time 1 (17 / 16) = Inr (13 / 16)"
    by (simp add: get_opacity_1 float_ev split del: if_split)
  have a: "py_int (fmul (13 / 16) (float_of_int 255)) = 207"
    by (simp add: float_ev split del: if_split)
  have "(1::int) \<in> {0, 1, 2}" and "(0::rat) \<le> 17 / 16" by simp_all
  from opacity_in_range [OF this(1) d this(2)] show ?thesis using d g a by simp
qed

lemma create_frame_cycle_a:
  "create_frame 0 = Inr (frame_of_alphas 255 255 255)"
  "create_frame 1 = Inr (frame_of_alphas 212 255 255)"
  "create_frame 2 = Inr (frame_of_alphas 170 255 255)"
  "create_frame 3 = Inr (frame_of_alphas 127 255 255)"
  "create_frame 4 = Inr (frame_of_alphas 127 255 255)"
  "create_frame 5 = Inr (frame_of_alphas 127 255 255)"
  "create_frame 6 = Inr (frame_of_alphas 127 255 255)"
  "create_frame 7 = Inr (frame_of_alphas 127 255 255)"
  "create_frame 8 = Inr (frame_of_alphas 127 233 255)"
  "create_frame 9 = Inr (frame_of_alphas 127 191 255)"
  "create_frame 10 = Inr (frame_of_alphas 127 148 255)"
  "create_frame 11 = Inr (frame_of_alphas 127 127 255)"
  "create_frame 12 = Inr (frame_of_alphas 127 127 255)"
  "create_frame 13 = Inr (frame_of_alphas 127 127 255)"
  "create_frame 14 = Inr (frame_of_alphas 127 127 255)"
  by (simp_all add: frame_ev frame_of_alphas_def split del: if_split)

lemma create_frame_cycle_b:
  "create_frame 15 = Inr (frame_of_alphas 127 127 255)"
  "create_frame 16 = Inr (frame_of_alphas 127 127 212)"
  "create_frame 17 = Inr (frame_of_alphas 127 127 170)"
  "create_frame 18 = Inr (frame_of_alphas 127 127 127)"
  "create_frame 19 = Inr (frame_of_alphas 127 127 127)"
  "create_frame 20 = Inr (frame_of_alphas 127 127 127)"
  "create_frame 21 = Inr (frame_of_alphas 127 127 127)"
  "create_frame 22 = Inr (frame_of_alphas 127 127 127)"
  "create_frame 23 = Inr (frame_of_alphas 148 127 127)"
  "create_frame 24 = Inr (frame_of_alphas 191 127 127)"
  "create_frame 25 = Inr (frame_of_alphas 233 127 127)"
  "create_frame 26 = Inr (frame_of_alphas 255 127 127)"
  "create_frame 27 = Inr (frame_of_alphas 255 127 127)"
  "create_frame 28 = Inr (frame_of_alphas 255 127 127)"
  "create_frame 29 = Inr (frame_of_alphas 255 127 127)"
  by (simp_all add: frame_ev frame_of_alphas_def split del: if_split)

lemma create_frame_cycle_c:
  "create_frame 30 = Inr (frame_of_alphas 255 127 127)"
  "create_frame 31 = Inr (frame_of_alphas 255 170 127)"
  "create_frame 32 = Inr (frame_of_alphas 255 212 127)"
  "create_frame 33 = Inr (frame_of_alphas 255 255 127)"
  "create_frame 34 = Inr (frame_of_alphas 255 255 127)"
  "create_frame 35 = Inr (frame_of_alphas 255 255 127)"
  "create_frame 36 = Inr (frame_of_alphas 255 255 127)"
  "create_frame 37 = Inr (frame_of_alphas 255 255 127)"
  "create_frame 38 = Inr (frame_of_alphas 255 255 148)"
  "create_frame 39 = Inr (frame_of_alphas 255 255 191)"
  "create_frame 40 = Inr (frame_of_alphas 255 255 233)"
  "create_frame 41 = Inr (frame_of_alphas 255 255 255)"
  "create_frame 42 = Inr (frame_of_alphas 255 255 255)"
  "create_frame 43 = Inr (frame_of_alphas 255 255 255)"
  "create_frame 44 = Inr (frame_of_alphas 255 255 255)"
  by (simp_all add: frame_ev frame_of_alphas_def split del: if_split)

lemma create_frame_next_a:
  "create_frame 45 = Inr (frame_of_alphas 255 255 255)"
  "create_frame 46 = Inr (frame_of_alphas 212 255 255)"
  "create_frame 47 = Inr (frame_of_alphas 170 255 255)"
  "create_frame 48 = Inr (frame_of_alphas 127 255 255)"
  "create_frame 49 = Inr (frame_of_alphas 127 255 255)"
  "create_frame 50 = Inr (frame_of_alphas 127 255 255)"
  "create_frame 51 = Inr (frame_of_alphas 127 255 255)"
  "create_frame 52 = Inr (frame_of_alphas 127 255 255)"
  "create_frame 53 = Inr (frame_of_alphas 127 233 255)"
  "create_frame 54 = Inr (frame_of_alphas 127 191 255)"
  "create_frame 55 = Inr (frame_of_alphas 127 148 255)"
  "create_frame 56 = Inr (frame_of_alphas 127 127 255)"
  "create_frame 57 = Inr (frame_of_alphas 127 127 255)"
  "create_frame 58 = Inr (frame_of_alphas 127 127 255)"
  "create_frame 59 = Inr (frame_of_alphas 127 127 255)"
  by (simp_all add: frame_ev frame_of_alphas_def split del: if_split)

lemma create_frame_next_b:
  "create_frame 60 = Inr (frame_of_alphas 127 127 255)"
  "create_frame 61 = Inr (frame_of_alphas 127 127 212)"
  "create_frame 62 = Inr (frame_of_alphas 127 127 169)"
  "create_frame 63 = Inr (frame_of_alphas 127 127 127)"
  "create_frame 64 = Inr (frame_of_alphas 127 127 127)"
  "create_frame 65 = Inr (frame_of_alphas 127 127 127)"
  "create_frame 66 = Inr (frame_of_alphas 127 127 127)"
  "create_frame 67 = Inr (frame_of_alphas 127 127 127)"
  "create_frame 68 = Inr (frame_of_alphas 148 127 127)"
  "create_frame 69 = Inr (frame_of_alphas 191 127 127)"
  "create_frame 70 = Inr (frame_of_alphas 233 127 127)"
  "create_frame 71 = Inr (frame_of_alphas 255 127 127)"
  "create_frame 72 = Inr (frame_of_alphas 255 127 127)"
  "create_frame 73 = Inr (frame_of_alphas 255 127 127)"
  "create_frame 74 = Inr (frame_of_alphas 255 127 127)"
  by (simp_all add: frame_ev frame_of_alphas_def split del: if_split)

lemma create_frame_next_c:
  "create_frame 75 = Inr (frame_of_alphas 255 127 127)"
  "create_frame 76 = Inr (frame_of_alphas 255 169 127)"
  "create_frame 77 = Inr (frame_of_alphas 255 212 127)"
  "create_frame 78 = Inr (frame_of_alphas 255 255 127)"
  "create_frame 79 = Inr (frame_of_alphas 255 255 127)"
  "create_frame 80 = Inr (frame_of_alphas 255 255 127)"
  "create_frame 81 = Inr (frame_of_alphas 255 255 127)"
  "create_frame 82 = Inr (frame_of_alphas 255 255 127)"
  "create_frame 83 = Inr (frame_of_alphas 255 255 148)"
  "create_frame 84 = Inr (frame_of_alphas 255 255 191)"
  "create_frame 85 = Inr (frame_of_alphas 255 255 233)"
  "create_frame 86 = Inr (frame_of_alphas 255 255 255)"
  "create_frame 87 = Inr (frame_of_alphas 255 255 255)"
  "create_frame 88 = Inr (frame_of_alphas 255 255 255)"
  "create_frame 89 = Inr (frame_of_alphas 255 255 255)"
  by (simp_all add: frame_ev frame_of_alphas_def split del: if_split)

lemmas create_frame_values = create_frame_cycle_a create_frame_cycle_b create_frame_cycle_c
  create_frame_next_a create_frame_next_b create_frame_next_c

lemma boundary_opacity:
  "get_opacity_at_time 0 0 = Inr 1" "get_opacity_at_time 1 0 = Inr 1"
  "get_opacity_at_time 2 0 = Inr 1"
  "get_opacity_at_time 0 CYCLE_DURATION = Inr 1" "get_opacity_at_time 1 CYCLE_DURATION = Inr 1"
  "get_opacity_at_time 2 CYCLE_DURATION = Inr 1"
  by (simp_all add: get_opacity_0 get_opacity_1 get_opacity_2 CYCLE_DURATION_eq float_ev
      split del: if_split)

text \<open>
  C2, as the code has it. The time sampled by \<open>create_frame\<close> is
  \<open>(frame_num / FPS) % CYCLE_DURATION\<close> in double arithmetic, and \<open>TOTAL_FRAMES\<close> is 45. For
  every frame number \<open>n\<close> of the generated cycle, 0 to 44, other than 17 and 31,
  \<open>create_frame (n + TOTAL_FRAMES)\<close> is the frame \<open>create_frame n\<close>; at 17 and 31 the
  rounding of the sampled time lowers the alpha channel of one dot from 170 to 169. At the
  loop boundary \<open>t = 0\<close> every dot has opacity 1.0, and so it has at the end of the cycle,
  at \<open>t = CYCLE_DURATION\<close> and in the last frame.
\<close>

theorem animation_loops:
  "TOTAL_FRAMES = 45 \<and>
   (\<forall>n. create_frame n =
      (case frame_time n of Inl e \<Rightarrow> Inl e
       | Inr t \<Rightarrow> draw_dots t (py_range NUM_DOTS) (image_new (WIDTH, HEIGHT) (0, 0, 0, 0)))) \<and>
   (\<forall>n. frame_time n =
      (case int_truediv n FPS of Inl e \<Rightarrow> Inl e | Inr q \<Rightarrow> float_mod q CYCLE_DURATION)) \<and>
   (\<forall>n \<in> {0..44} - {17, 31}. create_frame (n + TOTAL_FRAMES) = create_frame n) \<and>
   create_frame 17 = Inr (frame_of_alphas 127 127 170) \<and>
   create_frame (17 + TOTAL_FRAMES) = Inr (frame_of_alphas 127 127 169) \<and>
   create_frame 31 = Inr (frame_of_alphas 255 170 127) \<and>
   create_frame (31 + TOTAL_FRAMES) = Inr (frame_of_alphas 255 169 127) \<and>
   (\<forall>i \<in> {0, 1, 2}. get_opacity_at_time i 0 = Inr 1 \<and>
      get_opacity_at_time i CYCLE_DURATION = Inr 1) \<and>
   create_frame 0 = Inr (frame_of_alphas 255 255 255) \<and>
   create_frame (TOTAL_FRAMES - 1) = Inr (frame_of_alphas 255 255 255)"
proof -
  have a: "\<forall>n \<in> {0..44} - {17, 31}. create_frame (n + TOTAL_FRAMES) = create_frame n"
  proof -
    have "\<forall>n \<in> set [0..44] - {17, 31}. create_frame (n + 45) = create_frame n"
      by (simp add: upto.simps insert_Diff_if create_frame_values del: set_upto)
    then show ?thesis by (simp add: TOTAL_FRAMES_eq)
  qed
  have b: "\<forall>n. create_frame n =
      (case frame_time n of Inl e \<Rightarrow> Inl e
       | Inr t \<Rightarrow> draw_dots t (py_range NUM_DOTS) (image_new (WIDTH, HEIGHT) (0, 0, 0, 0)))"
    by (simp add: create_frame_def)
  have c: "\<forall>n. frame_time n =
      (case int_truediv n FPS of Inl e \<Rightarrow> Inl e | Inr q \<Rightarrow> float_mod q CYCLE_DURATION)"
    by (simp add: frame_time_def)
  have d: "\<forall>i \<in> {0, 1, 2}. get_opacity_at_time i 0 = Inr 1 \<and>
      get_opacity_at_time i CYCLE_DURATION = Inr 1"
    by (simp add: boundary_opacity)
  have e: "create_frame 17 = Inr (frame_of_alphas 127 127 170)"
    "create_frame (17 + TOTAL_FRAMES) = Inr (frame_of_alphas 127 127 169)"
    "create_frame 31 = Inr (frame_of_alphas 255 170 127)"
    "create_frame (31 + TOTAL_FRAMES) = Inr (frame_of_alphas 255 169 127)"
    "create_frame 0 = Inr (frame_of_alphas 255 255 255)"
    "create_frame (TOTAL_FRAMES - 1) = Inr (frame_of_alphas 255 255 255)"
    by (simp_all add: TOTAL_FRAMES_eq create_frame_values)
  show ?thesis using a b c d e TOTAL_FRAMES_eq by (intro conjI)
qed

theorem animation_loops_witness:
  "(5::int) \<in> {0..44} - {17, 31} \<and> create_frame (5 + TOTAL_FRAMES) = create_frame 5 \<and>
   create_frame 5 = Inr (frame_of_alphas 127 255 255) \<and>
   (2::int) \<in> {0, 1, 2} \<and> get_opacity_at_time 2 0 = Inr 1"
proof -
  have m: "(5::int) \<in> {0..44} - {17, 31}" and k: "(2::int) \<in> {0, 1, 2}" by simp_all
  have "\<forall>n \<in> {0..44} - {17, 31}. create_frame (n + TOTAL_FRAMES) = create_frame n"
    and "\<forall>i \<in> {0, 1, 2}. get_opacity_at_time i 0 = Inr 1 \<and>
      get_opacity_at_time i CYCLE_DURATION = Inr 1"
    using animation_loops by blast+
  then have "create_frame (5 + TOTAL_FRAMES) = create_frame 5"
    and "get_opacity_at_time 2 0 = Inr 1"
    using m k by blast+
  then show ?thesis using m k by (simp add: create_frame_values)
qed

theorem animation_loops_counterexample:
  "create_frame 17 \<noteq> create_frame (17 + TOTAL_FRAMES)"
  by (simp add: TOTAL_FRAMES_eq create_frame_values frame_of_alphas_def)

lemma pow2_neg_div: "(2::rat) powi (- int j) = 1 / 2 ^ j"
  by (simp add: power_int_minus_divide)

lemma pow2_grid_div: "(2::rat) powi (- int j - 52) = 1 / 2 ^ (52 + j)"
proof -
  have "- int j - 52 = - int (52 + j)" by simp
  then show ?thesis by (simp only: pow2_neg_div)
qed

lemma double_grid_div:
  assumes "rnd t = t" and "1 / 2 ^ j \<le> t"
  shows "\<exists>m. t = of_int m / 2 ^ (52 + j)"
proof -
  have "0 < t" using assms(2) by (rule less_le_trans [rotated]) simp
  then have "\<bar>t\<bar> = t" by simp
  then have "2 powi (- int j) \<le> \<bar>t\<bar>" using assms(2) by (simp only: pow2_neg_div)
  from double_grid [OF assms(1) this] show ?thesis by (simp only: pow2_grid_div) simp
qed

lemma double_below_div:
  assumes "rnd t = t" and "1 / 2 ^ j \<le> t" and "t < of_int M / 2 ^ (52 + j)"
  shows "t \<le> of_int (M - 1) / 2 ^ (52 + j)"
proof -
  obtain m where m: "t = of_int m / 2 ^ (52 + j)" using double_grid_div [OF assms(1,2)] by blast
  have "rat_of_int m < of_int M" using assms(3) unfolding m by (simp add: divide_less_cancel)
  then have "m \<le> M - 1" by simp
  then have "rat_of_int m \<le> of_int (M - 1)" by (simp only: of_int_le_iff)
  then show ?thesis unfolding m by (simp add: divide_le_cancel)
qed

lemma double_above_div:
  assumes "rnd t = t" and "1 / 2 ^ j \<le> t" and "of_int M / 2 ^ (52 + j) < t"
  shows "of_int (M + 1) / 2 ^ (52 + j) \<le> t"
proof -
  obtain m where m: "t = of_int m / 2 ^ (52 + j)" using double_grid_div [OF assms(1,2)] by blast
  have "rat_of_int M < of_int m" using assms(3) unfolding m by (simp add: divide_less_cancel)
  then have "M + 1 \<le> m" by simp
  then have "rat_of_int (M + 1) \<le> of_int m" by (simp only: of_int_le_iff)
  then show ?thesis unfolding m by (simp add: divide_le_cancel)
qed

lemma exact_sub_div:
  assumes "rnd t = t" and "1 / 2 ^ j \<le> t" and "c = of_int C / 2 ^ (52 + j)"
    and "c \<le> t" and "t - c < 1 / 2 ^ j" and "j \<le> 1000"
  shows "rnd (t - c) = t - c"
proof -
  obtain m where m: "t = of_int m / 2 ^ (52 + j)" using double_grid_div [OF assms(1,2)] by blast
  have d: "t - c = of_int (m - C) / 2 ^ (52 + j)" unfolding m assms(3) by (simp add: diff_divide_distrib)
  have "0 \<le> rat_of_int (m - C)" using assms(4) unfolding m assms(3) by (simp add: divide_le_cancel)
  then have lo: "0 \<le> m - C" by simp
  have "rat_of_int (m - C) / 2 ^ (52 + j) < 1 / 2 ^ j" using assms(5) unfolding d .
  then have "rat_of_int (m - C) < 2 ^ (52 + j) / 2 ^ j" by (simp add: field_simps)
  also have "\<dots> = 2 ^ 52" by (simp add: power_add)
  finally have "rat_of_int (m - C) < of_int (2 ^ 52)" by simp
  then have "m - C < 2 ^ 52" by (simp only: of_int_less_iff)
  then have k: "\<bar>m - C\<bar> < 2 ^ 53" using lo by simp
  have "t - c = of_int (m - C) * 2 powi (- int j - 52)"
    unfolding d by (simp only: pow2_grid_div) simp
  then show ?thesis using k assms(6) by (intro rnd_representable [of _ "m - C" "- int j - 52"]) simp_all
qed

lemma shift_sym_1:
  assumes d: "rnd t = t" and ne: "t \<noteq> 3152519739159347 / 9007199254740992"
  shows "get_opacity_at_time 1 t = get_opacity_at_time 0 (fsub t (1 / 4))"
proof -
  let ?s = "fsub t (1 / 4)"
  consider (a) "t < 1 / 4" | (b) "1 / 4 \<le> t" "t < 3152519739159347 / 9007199254740992" | (c) "3152519739159347 / 9007199254740992 < t" "t < 1"
    | (d) "1 \<le> t" "t < 2476979795053773 / 2251799813685248" | (e) "2476979795053773 / 2251799813685248 \<le> t"
    using ne by linarith
  then show ?thesis
  proof cases
    case a
    have "t - (1 / 4) \<le> - (1 / 36028797018963968)"
    proof (cases "1 / 8 \<le> t")
      case True
      then have "1 / 2 ^ 3 \<le> t" by simp
      moreover have "t < of_int 9007199254740992 / 2 ^ (52 + 3)" using a by simp
      ultimately have "t \<le> of_int (9007199254740992 - 1) / 2 ^ (52 + 3)" by (rule double_below_div [OF d])
      then show ?thesis by simp
    next
      case False
      then show ?thesis by simp
    qed
    then have "?s \<le> rnd (- (1 / 36028797018963968))" unfolding fsub_def by (rule rnd_mono)
    also have "rnd (- (1 / 36028797018963968)) = - (1 / 36028797018963968)" by (simp add: float_ev split del: if_split)
    finally have "?s < 0" by simp
    then show ?thesis using a by (simp add: get_opacity_0 get_opacity_1)
  next
    case b
    have f1: "1 / 2 ^ 2 \<le> t" using b(1) by simp
    have f2: "1 / 4 = rat_of_int 4503599627370496 / 2 ^ (52 + 2)" by simp
    have f3: "1 / 4 \<le> t" using b(1) by simp
    have f4: "t - (1 / 4) < 1 / 2 ^ 2" using b(2) by simp
    have "rnd (t - (1 / 4)) = t - (1 / 4)" by (rule exact_sub_div [OF d f1 f2 f3 f4]) simp
    then have s: "?s = t - (1 / 4)" by (simp add: fsub_def)
    have s0: "fsub ?s 0 = ?s" by (simp add: fsub_def rnd_rnd)
    have "0 \<le> ?s" and "?s < 3602879701896397 / 36028797018963968" using b unfolding s by simp_all
    then show ?thesis using b s0 by (simp add: get_opacity_0 get_opacity_1)
  next
    case c
    have lo: "1801439850948199 / 18014398509481984 \<le> t - (1 / 4)"
    proof -
      have "1 / 2 ^ 2 \<le> t" using c(1) by simp
      moreover have "of_int 6305039478318694 / 2 ^ (52 + 2) < t" using c(1) by simp
      ultimately have "of_int (6305039478318694 + 1) / 2 ^ (52 + 2) \<le> t" by (rule double_above_div [OF d])
      then show ?thesis by simp
    qed
    have hi: "t - (1 / 4) \<le> 6755399441055743 / 9007199254740992"
    proof (cases "1 / 2 \<le> t")
      case True
      then have "1 / 2 ^ 1 \<le> t" by simp
      moreover have "t < of_int 9007199254740992 / 2 ^ (52 + 1)" using c(2) by simp
      ultimately have "t \<le> of_int (9007199254740992 - 1) / 2 ^ (52 + 1)" by (rule double_below_div [OF d])
      then show ?thesis by simp
    next
      case False
      then show ?thesis by simp
    qed
    have "rnd (1801439850948199 / 18014398509481984) \<le> ?s" unfolding fsub_def using lo by (rule rnd_mono)
    moreover have "rnd (1801439850948199 / 18014398509481984) = 1801439850948199 / 18014398509481984" by (simp add: float_ev split del: if_split)
    ultimately have l: "3602879701896397 / 36028797018963968 \<le> ?s" by simp
    have "?s \<le> rnd (6755399441055743 / 9007199254740992)" unfolding fsub_def using hi by (rule rnd_mono)
    moreover have "rnd (6755399441055743 / 9007199254740992) = 6755399441055743 / 9007199254740992" by (simp add: float_ev split del: if_split)
    ultimately have h: "?s < 3 / 4" by simp
    show ?thesis using c l h by (simp add: get_opacity_0 get_opacity_1)
  next
    case d': d
    have g: "1 / 2 ^ 0 \<le> t" using d'(1) by simp
    have f2: "1 / 4 = rat_of_int 1125899906842624 / 2 ^ (52 + 0)" by simp
    have f3: "1 / 4 \<le> t" using d'(1) by simp
    have f4: "t - (1 / 4) < 1 / 2 ^ 0" using d'(2) by simp
    have "rnd (t - (1 / 4)) = t - (1 / 4)" by (rule exact_sub_div [OF d g f2 f3 f4]) simp
    then have s: "?s = t - (1 / 4)" by (simp add: fsub_def)
    have "t < of_int 4953959590107546 / 2 ^ (52 + 0)" using d'(2) by simp
    then have "t \<le> of_int (4953959590107546 - 1) / 2 ^ (52 + 0)" by (rule double_below_div [OF d g])
    then have "?s \<le> 3828059683264921 / 4503599627370496" unfolding s by simp
    then have h: "?s < 7656119366529843 / 9007199254740992" by simp
    have l: "3 / 4 \<le> ?s" using d'(1) unfolding s by simp
    have "?s - 3 / 4 = t - (1)" unfolding s by simp
    then have e: "fsub ?s (3 / 4) = fsub t (1)" by (simp only: fsub_def)
    show ?thesis using d' l h e by (simp add: get_opacity_0 get_opacity_1)
  next
    case e
    have "1914029841632461 / 2251799813685248 \<le> t - (1 / 4)" using e by simp
    then have "rnd (1914029841632461 / 2251799813685248) \<le> ?s" unfolding fsub_def by (rule rnd_mono)
    moreover have "rnd (1914029841632461 / 2251799813685248) = 1914029841632461 / 2251799813685248" by (simp add: float_ev split del: if_split)
    ultimately have "7656119366529843 / 9007199254740992 \<le> ?s" by simp
    then show ?thesis using e by (simp add: get_opacity_0 get_opacity_1)
  qed
qed

lemma shift_sym_2:
  assumes d: "rnd t = t" and ne: "t \<noteq> 5404319552844595 / 9007199254740992"
  shows "get_opacity_at_time 2 t = get_opacity_at_time 0 (fsub t (1 / 2))"
proof -
  let ?s = "fsub t (1 / 2)"
  consider (a) "t < 1 / 2" | (b) "1 / 2 \<le> t" "t < 5404319552844595 / 9007199254740992" | (c) "5404319552844595 / 9007199254740992 < t" "t < 5 / 4"
    | (d) "5 / 4 \<le> t" "t < 3039929748475085 / 2251799813685248" | (e) "3039929748475085 / 2251799813685248 \<le> t"
    using ne by linarith
  then show ?thesis
  proof cases
    case a
    have "t - (1 / 2) \<le> - (1 / 18014398509481984)"
    proof (cases "1 / 4 \<le> t")
      case True
      then have "1 / 2 ^ 2 \<le> t" by simp
      moreover have "t < of_int 9007199254740992 / 2 ^ (52 + 2)" using a by simp
      ultimately have "t \<le> of_int (9007199254740992 - 1) / 2 ^ (52 + 2)" by (rule double_below_div [OF d])
      then show ?thesis by simp
    next
      case False
      then show ?thesis by simp
    qed
    then have "?s \<le> rnd (- (1 / 18014398509481984))" unfolding fsub_def by (rule rnd_mono)
    also have "rnd (- (1 / 18014398509481984)) = - (1 / 18014398509481984)" by (simp add: float_ev split del: if_split)
    finally have "?s < 0" by simp
    then show ?thesis using a by (simp add: get_opacity_0 get_opacity_2)
  next
    case b
    have f1: "1 / 2 ^ 1 \<le> t" using b(1) by simp
    have f2: "1 / 2 = rat_of_int 4503599627370496 / 2 ^ (52 + 1)" by simp
    have f3: "1 / 2 \<le> t" using b(1) by simp
    have f4: "t - (1 / 2) < 1 / 2 ^ 1" using b(2) by simp
    have "rnd (t - (1 / 2)) = t - (1 / 2)" by (rule exact_sub_div [OF d f1 f2 f3 f4]) simp
    then have s: "?s = t - (1 / 2)" by (simp add: fsub_def)
    have s0: "fsub ?s 0 = ?s" by (simp add: fsub_def rnd_rnd)
    have "0 \<le> ?s" and "?s < 3602879701896397 / 36028797018963968" using b unfolding s by simp_all
    then show ?thesis using b s0 by (simp add: get_opacity_0 get_opacity_2)
  next
    case c
    have lo: "225179981368525 / 2251799813685248 \<le> t - (1 / 2)"
    proof -
      have "1 / 2 ^ 1 \<le> t" using c(1) by simp
      moreover have "of_int 5404319552844595 / 2 ^ (52 + 1) < t" using c(1) by simp
      ultimately have "of_int (5404319552844595 + 1) / 2 ^ (52 + 1) \<le> t" by (rule double_above_div [OF d])
      then show ?thesis by simp
    qed
    have hi: "t - (1 / 2) \<le> 3377699720527871 / 4503599627370496"
    proof (cases "1 \<le> t")
      case True
      then have "1 / 2 ^ 0 \<le> t" by simp
      moreover have "t < of_int 5629499534213120 / 2 ^ (52 + 0)" using c(2) by simp
      ultimately have "t \<le> of_int (5629499534213120 - 1) / 2 ^ (52 + 0)" by (rule double_below_div [OF d])
      then show ?thesis by simp
    next
      case False
      then show ?thesis by simp
    qed
    have "rnd (225179981368525 / 2251799813685248) \<le> ?s" unfolding fsub_def using lo by (rule rnd_mono)
    moreover have "rnd (225179981368525 / 2251799813685248) = 225179981368525 / 2251799813685248" by (simp add: float_ev split del: if_split)
    ultimately have l: "3602879701896397 / 36028797018963968 \<le> ?s" by simp
    have "?s \<le> rnd (3377699720527871 / 4503599627370496)" unfolding fsub_def using hi by (rule rnd_mono)
    moreover have "rnd (3377699720527871 / 4503599627370496) = 3377699720527871 / 4503599627370496" by (simp add: float_ev split del: if_split)
    ultimately have h: "?s < 3 / 4" by simp
    show ?thesis using c l h by (simp add: get_opacity_0 get_opacity_2)
  next
    case d': d
    have g: "1 / 2 ^ 0 \<le> t" using d'(1) by simp
    have f2: "1 / 2 = rat_of_int 2251799813685248 / 2 ^ (52 + 0)" by simp
    have f3: "1 / 2 \<le> t" using d'(1) by simp
    have f4: "t - (1 / 2) < 1 / 2 ^ 0" using d'(2) by simp
    have "rnd (t - (1 / 2)) = t - (1 / 2)" by (rule exact_sub_div [OF d g f2 f3 f4]) simp
    then have s: "?s = t - (1 / 2)" by (simp add: fsub_def)
    have "t < of_int 6079859496950170 / 2 ^ (52 + 0)" using d'(2) by simp
    then have "t \<le> of_int (6079859496950170 - 1) / 2 ^ (52 + 0)" by (rule double_below_div [OF d g])
    then have "?s \<le> 3828059683264921 / 4503599627370496" unfolding s by simp
    then have h: "?s < 7656119366529843 / 9007199254740992" by simp
    have l: "3 / 4 \<le> ?s" using d'(1) unfolding s by simp
    have "?s - 3 / 4 = t - (5 / 4)" unfolding s by simp
    then have e: "fsub ?s (3 / 4) = fsub t (5 / 4)" by (simp only: fsub_def)
    show ?thesis using d' l h e by (simp add: get_opacity_0 get_opacity_2)
  next
    case e
    have "1914029841632461 / 2251799813685248 \<le> t - (1 / 2)" using e by simp
    then have "rnd (1914029841632461 / 2251799813685248) \<le> ?s" unfolding fsub_def by (rule rnd_mono)
    moreover have "rnd (1914029841632461 / 2251799813685248) = 1914029841632461 / 2251799813685248" by (simp add: float_ev split del: if_split)
    ultimately have "7656119366529843 / 9007199254740992 \<le> ?s" by simp
    then show ?thesis using e by (simp add: get_opacity_0 get_opacity_2)
  qed
qed

lemma shift_amount:
  "fmul (float_lit (1 / 4)) (float_of_int 0) = 0"
  "fmul (float_lit (1 / 4)) (float_of_int 1) = 1 / 4"
  "fmul (float_lit (1 / 4)) (float_of_int 2) = 1 / 2"
  by (simp_all add: float_ev split del: if_split)

lemma start_difference:
  "fsub (BRIGHTEN_START ! 0) (FADE_START ! 0) = float_lit (3 / 4)"
  "fsub (BRIGHTEN_START ! Suc 0) (FADE_START ! Suc 0) = float_lit (3 / 4)"
  "fsub (BRIGHTEN_START ! 2) (FADE_START ! 2) = float_lit (3 / 4)"
  by (simp_all add: FADE_START_eq BRIGHTEN_START_eq float_ev split del: if_split)

lemma fsub_zero: "rnd t = t \<Longrightarrow> fsub t 0 = t"
  by (simp add: fsub_def)

text \<open>
  C9, as the code has it. For every dot index \<open>i\<close> in \<open>{0, 1, 2}\<close> and every double \<open>t\<close>,
  \<open>get_opacity_at_time i t\<close> is \<open>get_opacity_at_time 0 (t - 0.25 * i)\<close>, except for \<open>i = 1\<close>
  and \<open>i = 2\<close> at the one instant \<open>t = FADE_START[i] + TRANSITION_TIME\<close>, the end of the
  fade of dot \<open>i\<close> as the code computes it; and \<open>BRIGHTEN_START[i] - FADE_START[i]\<close> is 0.75 for
  every \<open>i\<close>.
\<close>

theorem time_shift_symmetry:
  assumes "i \<in> {0, 1, 2}" and "is_double t"
    and "i = 0 \<or> t \<noteq> fadd (FADE_START ! nat i) TRANSITION_TIME"
  shows "get_opacity_at_time i t =
      get_opacity_at_time 0 (fsub t (fmul (float_lit (25 / 100)) (float_of_int i))) \<and>
    fsub (BRIGHTEN_START ! nat i) (FADE_START ! nat i) = float_lit (75 / 100)"
proof -
  have d: "rnd t = t" using assms(2) by (simp add: is_double_def)
  consider "i = 0" | "i = 1" | "i = 2" using assms(1) by auto
  then show ?thesis
  proof cases
    case 1
    then show ?thesis using d by (simp add: shift_amount start_difference fsub_zero)
  next
    case 2
    then have "t \<noteq> 3152519739159347 / 9007199254740992"
      using assms(3) by (simp add: FADE_START_eq fade_end_eq)
    from shift_sym_1 [OF d this] show ?thesis
      using 2 by (simp add: shift_amount start_difference)
  next
    case 3
    then have "t \<noteq> 5404319552844595 / 9007199254740992"
      using assms(3) by (simp add: FADE_START_eq fade_end_eq)
    from shift_sym_2 [OF d this] show ?thesis
      using 3 by (simp add: shift_amount start_difference)
  qed
qed

theorem time_shift_symmetry_witness:
  "(1::int) \<in> {0, 1, 2} \<and> is_double (5 / 16) \<and>
   5 / 16 \<noteq> fadd (FADE_START ! nat 1) TRANSITION_TIME \<and>
   get_opacity_at_time 1 (5 / 16) = Inr (11 / 16) \<and>
   get_opacity_at_time 0 (fsub (5 / 16) (fmul (float_lit (25 / 100)) (float_of_int 1)))
     = Inr (11 / 16)"
proof -
  have a: "(1::int) \<in> {0, 1, 2}" by simp
  have b: "is_double (5 / 16)" by (simp add: is_double_def float_ev split del: if_split)
  have c: "5 / 16 \<noteq> fadd (FADE_START ! nat 1) TRANSITION_TIME"
    by (simp add: FADE_START_eq fade_end_eq)
  have g: "get_opacity_at_time 1 (5 / 16) = Inr (11 / 16)"
    by (simp add: get_opacity_1 float_ev split del: if_split)
  have "get_opacity_at_time 1 (5 / 16) =
      get_opacity_at_time 0 (fsub (5 / 16) (fmul (float_lit (25 / 100)) (float_of_int 1)))"
    using time_shift_symmetry [OF a b] c by blast
  then show ?thesis using a b c g by simp
qed

theorem time_shift_symmetry_counterexample:
  "is_double (float_lit (35 / 100)) \<and>
   get_opacity_at_time 1 (float_lit (35 / 100)) \<noteq>
     get_opacity_at_time 0
       (fsub (float_lit (35 / 100)) (fmul (float_lit (25 / 100)) (float_of_int 1)))"
proof -
  have t: "float_lit (7 / 20) = 3152519739159347 / 9007199254740992"
    by (simp add: float_ev split del: if_split)
  have d: "is_double (3152519739159347 / 9007199254740992)"
    by (simp add: is_double_def float_ev split del: if_split)
  have l: "get_opacity_at_time 1 (3152519739159347 / 9007199254740992) = Inr (1 / 2)"
    by (simp add: get_opacity_1)
  have r: "get_opacity_at_time 0 (fsub (3152519739159347 / 9007199254740992) (1 / 4))
      = Inr (4503599627370497 / 9007199254740992)"
    by (simp add: get_opacity_0 float_ev split del: if_split)
  show ?thesis by (simp add: t shift_amount l r d)
qed

lemma rnd_error: "\<bar>rnd x - x\<bar> \<le> 2 powi fexp x / 2"
proof (cases "x = 0")
  case False
  let ?P = "(2::rat) powi fexp x"
  let ?q = "x / ?P"
  have P: "0 < ?P" by (rule pow2_pos)
  have x: "x = ?q * ?P" using P by simp
  have "rnd x - x = (of_int (rne ?q) - ?q) * ?P"
    using False P by (simp add: rnd_def left_diff_distrib)
  then have "\<bar>rnd x - x\<bar> = \<bar>of_int (rne ?q) - ?q\<bar> * ?P"
    using P by (simp add: abs_mult)
  also have "\<dots> \<le> 1 / 2 * ?P"
  proof (rule mult_right_mono)
    show "\<bar>of_int (rne ?q) - ?q\<bar> \<le> 1 / 2" using rne_near [of ?q] by linarith
    show "0 \<le> ?P" using P by simp
  qed
  finally show ?thesis by simp
qed simp

lemma rnd_error_below:
  assumes "\<bar>x\<bar> < 2 powi (k + 53)" and "- 1074 \<le> k"
  shows "\<bar>rnd x - x\<bar> \<le> 2 powi k / 2"
proof (cases "x = 0")
  case False
  have "fexp x \<le> k" using False assms by (rule fexp_le_of_less)
  then have "(2::rat) powi fexp x \<le> 2 powi k" by (rule pow2_mono)
  then show ?thesis using rnd_error [of x] by linarith
next
  case True
  then show ?thesis using pow2_pos [of k] by simp
qed

lemma rnd_error_unit:
  assumes "0 \<le> x" and "x \<le> 1"
  shows "\<bar>rnd x - x\<bar> \<le> 1 / 2 ^ 54"
proof (cases "x = 1")
  case True
  then show ?thesis by (simp add: rnd_fixed)
next
  case False
  then have "\<bar>x\<bar> < 2 powi (- 53 + 53)" using assms by simp
  then have "\<bar>rnd x - x\<bar> \<le> 2 powi (- 53) / 2" by (rule rnd_error_below) simp
  then show ?thesis by (simp add: power_int_minus_divide)
qed

lemma rnd_error_half:
  assumes "0 \<le> x" and "x \<le> 1 / 2"
  shows "\<bar>rnd x - x\<bar> \<le> 1 / 2 ^ 55"
proof (cases "x = 1 / 2")
  case True
  show ?thesis unfolding True by (simp add: rnd_fixed)
next
  case False
  then have "\<bar>x\<bar> < 2 powi (- 54 + 53)" using assms by simp
  then have "\<bar>rnd x - x\<bar> \<le> 2 powi (- 54) / 2" by (rule rnd_error_below) simp
  then show ?thesis by (simp add: power_int_minus_divide)
qed

lemma rnd_error_eighth:
  assumes "0 \<le> x" and "x < 1 / 8"
  shows "\<bar>rnd x - x\<bar> \<le> 1 / 2 ^ 57"
proof -
  have "\<bar>x\<bar> < 2 powi (- 56 + 53)" using assms by simp
  then have "\<bar>rnd x - x\<bar> \<le> 2 powi (- 56) / 2" by (rule rnd_error_below) simp
  then show ?thesis by (simp add: power_int_minus_divide)
qed

lemma fade_interpolation_error:
  assumes "0 \<le> x" and "x \<le> 3602879701896397 / 36028797018963968"
  shows "\<bar>fsub 1 (fmul (1 / 2) (rnd (rnd x / (3602879701896397 / 36028797018963968)))) - (1 - 5 * x)\<bar>
    \<le> 25 / 2 ^ 57"
proof -
  define d where "d = rnd x"
  define p where "p = rnd (d / (3602879701896397 / 36028797018963968))"
  define h where "h = rnd (1 / 2 * p)"
  define v where "v = rnd (1 - h)"
  have x8: "x < 1 / 8" using assms(2) by simp
  have e1: "\<bar>d - x\<bar> \<le> 1 / 2 ^ 57" unfolding d_def using assms(1) x8 by (rule rnd_error_eighth)
  have d: "0 \<le> d" "d \<le> 3602879701896397 / 36028797018963968"
    using elapsed_range [of 0 x] assms by (simp_all add: fsub_def d_def)
  have q: "0 \<le> d / (3602879701896397 / 36028797018963968)"
    "d / (3602879701896397 / 36028797018963968) \<le> 1" using d by simp_all
  have e2: "\<bar>p - d / (3602879701896397 / 36028797018963968)\<bar> \<le> 1 / 2 ^ 54"
    unfolding p_def using q by (rule rnd_error_unit)
  have p: "0 \<le> p" "p \<le> 1" unfolding p_def using progress_range [OF d] by simp_all
  have "0 \<le> 1 / 2 * p" "1 / 2 * p \<le> 1 / 2" using p by simp_all
  then have e3: "\<bar>h - 1 / 2 * p\<bar> \<le> 1 / 2 ^ 55" unfolding h_def by (rule rnd_error_half)
  have h: "0 \<le> h" "h \<le> 1 / 2" using half_range [OF p] by (simp_all add: h_def fmul_def)
  have "0 \<le> 1 - h" "1 - h \<le> 1" using h by simp_all
  then have e4: "\<bar>v - (1 - h)\<bar> \<le> 1 / 2 ^ 54" unfolding v_def by (rule rnd_error_unit)
  have e2': "\<bar>p - d * (36028797018963968 / 3602879701896397)\<bar> \<le> 1 / 18014398509481984"
    using e2 by simp
  have "\<bar>v - (1 - 5 * x)\<bar> \<le> 25 / 144115188075855872"
    using e1 e2' e3 e4 assms d unfolding abs_le_iff by simp
  then show ?thesis by (simp add: v_def h_def p_def d_def fsub_def fmul_def)
qed

lemma brighten_interpolation_error:
  assumes "0 \<le> x" and "x \<le> 3602879701896397 / 36028797018963968"
  shows "\<bar>fadd (1 / 2) (fmul (1 / 2) (rnd (rnd x / (3602879701896397 / 36028797018963968)))) - (1 / 2 + 5 * x)\<bar>
    \<le> 25 / 2 ^ 57"
proof -
  define d where "d = rnd x"
  define p where "p = rnd (d / (3602879701896397 / 36028797018963968))"
  define h where "h = rnd (1 / 2 * p)"
  define v where "v = rnd (1 / 2 + h)"
  have x8: "x < 1 / 8" using assms(2) by simp
  have e1: "\<bar>d - x\<bar> \<le> 1 / 2 ^ 57" unfolding d_def using assms(1) x8 by (rule rnd_error_eighth)
  have d: "0 \<le> d" "d \<le> 3602879701896397 / 36028797018963968"
    using elapsed_range [of 0 x] assms by (simp_all add: fsub_def d_def)
  have q: "0 \<le> d / (3602879701896397 / 36028797018963968)"
    "d / (3602879701896397 / 36028797018963968) \<le> 1" using d by simp_all
  have e2: "\<bar>p - d / (3602879701896397 / 36028797018963968)\<bar> \<le> 1 / 2 ^ 54"
    unfolding p_def using q by (rule rnd_error_unit)
  have p: "0 \<le> p" "p \<le> 1" unfolding p_def using progress_range [OF d] by simp_all
  have "0 \<le> 1 / 2 * p" "1 / 2 * p \<le> 1 / 2" using p by simp_all
  then have e3: "\<bar>h - 1 / 2 * p\<bar> \<le> 1 / 2 ^ 55" unfolding h_def by (rule rnd_error_half)
  have h: "0 \<le> h" "h \<le> 1 / 2" using half_range [OF p] by (simp_all add: h_def fmul_def)
  have "0 \<le> 1 / 2 + h" "1 / 2 + h \<le> 1" using h by simp_all
  then have e4: "\<bar>v - (1 / 2 + h)\<bar> \<le> 1 / 2 ^ 54" unfolding v_def by (rule rnd_error_unit)
  have e2': "\<bar>p - d * (36028797018963968 / 3602879701896397)\<bar> \<le> 1 / 18014398509481984"
    using e2 by simp
  have "\<bar>v - (1 / 2 + 5 * x)\<bar> \<le> 25 / 144115188075855872"
    using e1 e2' e3 e4 assms d unfolding abs_le_iff by simp
  then show ?thesis by (simp add: v_def h_def p_def d_def fadd_def fmul_def)
qed

lemma reference_0:
  "reference_waveform [0, 25 / 100, 5 / 10] [75 / 100, 1, 125 / 100] 0 t =
     (if t < 0 then 1 else if t < 1 / 10 then 1 - 5 * t else if t < 3 / 4 then 1 / 2
      else if t < 17 / 20 then 1 / 2 + 5 * (t - 3 / 4) else 1)"
  by (auto simp add: reference_waveform_def diff_divide_distrib)

lemma reference_1:
  "reference_waveform [0, 25 / 100, 5 / 10] [75 / 100, 1, 125 / 100] 1 t =
     (if t < 1 / 4 then 1 else if t < 7 / 20 then 1 - 5 * (t - 1 / 4) else if t < 1 then 1 / 2
      else if t < 11 / 10 then 1 / 2 + 5 * (t - 1) else 1)"
  by (auto simp add: reference_waveform_def diff_divide_distrib)

lemma reference_2:
  "reference_waveform [0, 25 / 100, 5 / 10] [75 / 100, 1, 125 / 100] 2 t =
     (if t < 1 / 2 then 1 else if t < 3 / 5 then 1 - 5 * (t - 1 / 2) else if t < 5 / 4 then 1 / 2
      else if t < 27 / 20 then 1 / 2 + 5 * (t - 5 / 4) else 1)"
  by (auto simp add: reference_waveform_def diff_divide_distrib)

lemma near_reference_0:
  assumes "rnd t = t"
  shows "\<exists>v. get_opacity_at_time 0 t = Inr v \<and>
    \<bar>v - reference_waveform [0, 25 / 100, 5 / 10] [75 / 100, 1, 125 / 100] 0 t\<bar>
      \<le> 1 / 4503599627370496 \<and>
    (t < 0 \<or> 1 / 10 \<le> t \<and> t < 3 / 4 \<or> 17 / 20 \<le> t \<longrightarrow>
      v = reference_waveform [0, 25 / 100, 5 / 10] [75 / 100, 1, 125 / 100] 0 t)"
proof -
  let ?r = "reference_waveform [0, 25 / 100, 5 / 10] [75 / 100, 1, 125 / 100] 0 t"
  let ?P = "t < 0 \<or> 1 / 10 \<le> t \<and> t < 3 / 4 \<or> 17 / 20 \<le> t"
  consider (a) "t < 0" | (b) "0 \<le> t" "t < 1 / 10"
    | (c) "1 / 10 \<le> t" "t < 3602879701896397 / 36028797018963968"
    | (d) "3602879701896397 / 36028797018963968 \<le> t" "t < 3 / 4"
    | (e) "3 / 4 \<le> t" "t < 7656119366529843 / 9007199254740992"
    | (f) "7656119366529843 / 9007199254740992 \<le> t" "t < 17 / 20"
    | (g) "17 / 20 \<le> t"
    by linarith
  then show ?thesis
  proof cases
    case a
    have c: "get_opacity_at_time 0 t = Inr 1" using a by (simp add: get_opacity_0)
    have r: "?r = 1" using a unfolding reference_0 by simp
    have "\<bar>1 - ?r\<bar> \<le> 1 / 4503599627370496 \<and> (?P \<longrightarrow> 1 = ?r)" unfolding r by simp
    then show ?thesis unfolding c by blast
  next
    case b
    have x: "0 \<le> t" "t \<le> 3602879701896397 / 36028797018963968" using b by simp_all
    have c: "get_opacity_at_time 0 t =
      Inr (fsub 1 (fmul (1 / 2) (rnd (rnd (t) / (3602879701896397 / 36028797018963968)))))"
      using b by (simp add: get_opacity_0 fsub_def)
    have r: "?r = 1 - 5 * (t)" using b unfolding reference_0 by simp
    have np: "\<not> ?P" using b by simp
    have "\<bar>fsub 1 (fmul (1 / 2) (rnd (rnd (t) / (3602879701896397 / 36028797018963968)))) - ?r\<bar>
        \<le> 25 / 144115188075855872"
      using fade_interpolation_error [OF x] unfolding r by simp
    then have "\<bar>fsub 1 (fmul (1 / 2) (rnd (rnd (t) / (3602879701896397 / 36028797018963968)))) - ?r\<bar>
        \<le> 1 / 4503599627370496"
      by linarith
    then show ?thesis unfolding c using np by blast
  next
    case c
    have "1 / 2 ^ 4 \<le> t" using c(1) by simp
    moreover have "t < of_int 7205759403792794 / 2 ^ (52 + 4)" using c(2) by simp
    ultimately have "t \<le> of_int (7205759403792794 - 1) / 2 ^ (52 + 4)"
      by (rule double_below_div [OF assms])
    then have False using c(1) by simp
    then show ?thesis by (rule FalseE)
  next
    case d
    have c: "get_opacity_at_time 0 t = Inr (1 / 2)" using d by (simp add: get_opacity_0)
    have r: "?r = 1 / 2" using d unfolding reference_0 by simp
    have "\<bar>1 / 2 - ?r\<bar> \<le> 1 / 4503599627370496 \<and> (?P \<longrightarrow> 1 / 2 = ?r)"
      unfolding r by simp
    then show ?thesis unfolding c by blast
  next
    case e
    have x: "0 \<le> t - 3 / 4" "t - 3 / 4 \<le> 3602879701896397 / 36028797018963968" using e by simp_all
    have c: "get_opacity_at_time 0 t =
      Inr (fadd (1 / 2) (fmul (1 / 2) (rnd (rnd (t - 3 / 4) / (3602879701896397 / 36028797018963968)))))"
      using e by (simp add: get_opacity_0 fsub_def)
    have r: "?r = 1 / 2 + 5 * (t - 3 / 4)" using e unfolding reference_0 by simp
    have np: "\<not> ?P" using e by simp
    have "\<bar>fadd (1 / 2) (fmul (1 / 2) (rnd (rnd (t - 3 / 4) / (3602879701896397 / 36028797018963968)))) - ?r\<bar>
        \<le> 25 / 144115188075855872"
      using brighten_interpolation_error [OF x] unfolding r by simp
    then have "\<bar>fadd (1 / 2) (fmul (1 / 2) (rnd (rnd (t - 3 / 4) / (3602879701896397 / 36028797018963968)))) - ?r\<bar>
        \<le> 1 / 4503599627370496"
      by linarith
    then show ?thesis unfolding c using np by blast
  next
    case f
    have c: "get_opacity_at_time 0 t = Inr 1" using f by (simp add: get_opacity_0)
    have r: "?r = 1 / 2 + 5 * (t - 3 / 4)" using f unfolding reference_0 by simp
    have np: "\<not> ?P" using f by simp
    have "\<bar>1 - ?r\<bar> \<le> 1 / 4503599627370496" unfolding r using f by simp
    then show ?thesis unfolding c using np by blast
  next
    case g
    have c: "get_opacity_at_time 0 t = Inr 1" using g by (simp add: get_opacity_0)
    have r: "?r = 1" using g unfolding reference_0 by simp
    have "\<bar>1 - ?r\<bar> \<le> 1 / 4503599627370496 \<and> (?P \<longrightarrow> 1 = ?r)" unfolding r by simp
    then show ?thesis unfolding c by blast
  qed
qed

lemma near_reference_1:
  assumes "rnd t = t"
  shows "\<exists>v. get_opacity_at_time 1 t = Inr v \<and>
    \<bar>v - reference_waveform [0, 25 / 100, 5 / 10] [75 / 100, 1, 125 / 100] 1 t\<bar>
      \<le> 1 / 4503599627370496 \<and>
    (t < 1 / 4 \<or> 7 / 20 \<le> t \<and> t < 1 \<or> 11 / 10 \<le> t \<longrightarrow>
      v = reference_waveform [0, 25 / 100, 5 / 10] [75 / 100, 1, 125 / 100] 1 t)"
proof -
  let ?r = "reference_waveform [0, 25 / 100, 5 / 10] [75 / 100, 1, 125 / 100] 1 t"
  let ?P = "t < 1 / 4 \<or> 7 / 20 \<le> t \<and> t < 1 \<or> 11 / 10 \<le> t"
  consider (a) "t < 1 / 4" | (b) "1 / 4 \<le> t" "t < 3152519739159347 / 9007199254740992"
    | (c) "3152519739159347 / 9007199254740992 \<le> t" "t < 7 / 20"
    | (d) "7 / 20 \<le> t" "t < 1"
    | (e) "1 \<le> t" "t < 11 / 10"
    | (f) "11 / 10 \<le> t" "t < 2476979795053773 / 2251799813685248"
    | (g) "2476979795053773 / 2251799813685248 \<le> t"
    by linarith
  then show ?thesis
  proof cases
    case a
    have c: "get_opacity_at_time 1 t = Inr 1" using a by (simp add: get_opacity_1)
    have r: "?r = 1" using a unfolding reference_1 by simp
    have "\<bar>1 - ?r\<bar> \<le> 1 / 4503599627370496 \<and> (?P \<longrightarrow> 1 = ?r)" unfolding r by simp
    then show ?thesis unfolding c by blast
  next
    case b
    have x: "0 \<le> t - 1 / 4" "t - 1 / 4 \<le> 3602879701896397 / 36028797018963968" using b by simp_all
    have c: "get_opacity_at_time 1 t =
      Inr (fsub 1 (fmul (1 / 2) (rnd (rnd (t - 1 / 4) / (3602879701896397 / 36028797018963968)))))"
      using b by (simp add: get_opacity_1 fsub_def)
    have r: "?r = 1 - 5 * (t - 1 / 4)" using b unfolding reference_1 by simp
    have np: "\<not> ?P" using b by simp
    have "\<bar>fsub 1 (fmul (1 / 2) (rnd (rnd (t - 1 / 4) / (3602879701896397 / 36028797018963968)))) - ?r\<bar>
        \<le> 25 / 144115188075855872"
      using fade_interpolation_error [OF x] unfolding r by simp
    then have "\<bar>fsub 1 (fmul (1 / 2) (rnd (rnd (t - 1 / 4) / (3602879701896397 / 36028797018963968)))) - ?r\<bar>
        \<le> 1 / 4503599627370496"
      by linarith
    then show ?thesis unfolding c using np by blast
  next
    case c
    have c': "get_opacity_at_time 1 t = Inr (1 / 2)" using c by (simp add: get_opacity_1)
    have r: "?r = 1 - 5 * (t - 1 / 4)" using c unfolding reference_1 by simp
    have np: "\<not> ?P" using c by simp
    have "\<bar>1 / 2 - ?r\<bar> \<le> 1 / 4503599627370496" unfolding r using c by simp
    then show ?thesis unfolding c' using np by blast
  next
    case d
    have c: "get_opacity_at_time 1 t = Inr (1 / 2)" using d by (simp add: get_opacity_1)
    have r: "?r = 1 / 2" using d unfolding reference_1 by simp
    have "\<bar>1 / 2 - ?r\<bar> \<le> 1 / 4503599627370496 \<and> (?P \<longrightarrow> 1 / 2 = ?r)"
      unfolding r by simp
    then show ?thesis unfolding c by blast
  next
    case e
    have x: "0 \<le> t - 1" "t - 1 \<le> 3602879701896397 / 36028797018963968" using e by simp_all
    have c: "get_opacity_at_time 1 t =
      Inr (fadd (1 / 2) (fmul (1 / 2) (rnd (rnd (t - 1) / (3602879701896397 / 36028797018963968)))))"
      using e by (simp add: get_opacity_1 fsub_def)
    have r: "?r = 1 / 2 + 5 * (t - 1)" using e unfolding reference_1 by simp
    have np: "\<not> ?P" using e by simp
    have "\<bar>fadd (1 / 2) (fmul (1 / 2) (rnd (rnd (t - 1) / (3602879701896397 / 36028797018963968)))) - ?r\<bar>
        \<le> 25 / 144115188075855872"
      using brighten_interpolation_error [OF x] unfolding r by simp
    then have "\<bar>fadd (1 / 2) (fmul (1 / 2) (rnd (rnd (t - 1) / (3602879701896397 / 36028797018963968)))) - ?r\<bar>
        \<le> 1 / 4503599627370496"
      by linarith
    then show ?thesis unfolding c using np by blast
  next
    case f
    have "1 \<le> t" using f(1) by simp
    moreover have "t < of_int 4953959590107546 / 4503599627370496" using f(2) by simp
    ultimately have "t \<le> of_int (4953959590107546 - 1) / 4503599627370496"
      by (rule double_below_one [OF assms])
    then have False using f(1) by simp
    then show ?thesis by (rule FalseE)
  next
    case g
    have c: "get_opacity_at_time 1 t = Inr 1" using g by (simp add: get_opacity_1)
    have r: "?r = 1" using g unfolding reference_1 by simp
    have "\<bar>1 - ?r\<bar> \<le> 1 / 4503599627370496 \<and> (?P \<longrightarrow> 1 = ?r)" unfolding r by simp
    then show ?thesis unfolding c by blast
  qed
qed

lemma near_reference_2:
  assumes "rnd t = t"
  shows "\<exists>v. get_opacity_at_time 2 t = Inr v \<and>
    \<bar>v - reference_waveform [0, 25 / 100, 5 / 10] [75 / 100, 1, 125 / 100] 2 t\<bar>
      \<le> 1 / 4503599627370496 \<and>
    (t < 1 / 2 \<or> 3 / 5 \<le> t \<and> t < 5 / 4 \<or> 27 / 20 \<le> t \<longrightarrow>
      v = reference_waveform [0, 25 / 100, 5 / 10] [75 / 100, 1, 125 / 100] 2 t)"
proof -
  let ?r = "reference_waveform [0, 25 / 100, 5 / 10] [75 / 100, 1, 125 / 100] 2 t"
  let ?P = "t < 1 / 2 \<or> 3 / 5 \<le> t \<and> t < 5 / 4 \<or> 27 / 20 \<le> t"
  consider (a) "t < 1 / 2" | (b) "1 / 2 \<le> t" "t < 5404319552844595 / 9007199254740992"
    | (c) "5404319552844595 / 9007199254740992 \<le> t" "t < 3 / 5"
    | (d) "3 / 5 \<le> t" "t < 5 / 4"
    | (e) "5 / 4 \<le> t" "t < 27 / 20"
    | (f) "27 / 20 \<le> t" "t < 3039929748475085 / 2251799813685248"
    | (g) "3039929748475085 / 2251799813685248 \<le> t"
    by linarith
  then show ?thesis
  proof cases
    case a
    have c: "get_opacity_at_time 2 t = Inr 1" using a by (simp add: get_opacity_2)
    have r: "?r = 1" using a unfolding reference_2 by simp
    have "\<bar>1 - ?r\<bar> \<le> 1 / 4503599627370496 \<and> (?P \<longrightarrow> 1 = ?r)" unfolding r by simp
    then show ?thesis unfolding c by blast
  next
    case b
    have x: "0 \<le> t - 1 / 2" "t - 1 / 2 \<le> 3602879701896397 / 36028797018963968" using b by simp_all
    have c: "get_opacity_at_time 2 t =
      Inr (fsub 1 (fmul (1 / 2) (rnd (rnd (t - 1 / 2) / (3602879701896397 / 36028797018963968)))))"
      using b by (simp add: get_opacity_2 fsub_def)
    have r: "?r = 1 - 5 * (t - 1 / 2)" using b unfolding reference_2 by simp
    have np: "\<not> ?P" using b by simp
    have "\<bar>fsub 1 (fmul (1 / 2) (rnd (rnd (t - 1 / 2) / (3602879701896397 / 36028797018963968)))) - ?r\<bar>
        \<le> 25 / 144115188075855872"
      using fade_interpolation_error [OF x] unfolding r by simp
    then have "\<bar>fsub 1 (fmul (1 / 2) (rnd (rnd (t - 1 / 2) / (3602879701896397 / 36028797018963968)))) - ?r\<bar>
        \<le> 1 / 4503599627370496"
      by linarith
    then show ?thesis unfolding c using np by blast
  next
    case c
    have c': "get_opacity_at_time 2 t = Inr (1 / 2)" using c by (simp add: get_opacity_2)
    have r: "?r = 1 - 5 * (t - 1 / 2)" using c unfolding reference_2 by simp
    have np: "\<not> ?P" using c by simp
    have "\<bar>1 / 2 - ?r\<bar> \<le> 1 / 4503599627370496" unfolding r using c by simp
    then show ?thesis unfolding c' using np by blast
  next
    case d
    have c: "get_opacity_at_time 2 t = Inr (1 / 2)" using d by (simp add: get_opacity_2)
    have r: "?r = 1 / 2" using d unfolding reference_2 by simp
    have "\<bar>1 / 2 - ?r\<bar> \<le> 1 / 4503599627370496 \<and> (?P \<longrightarrow> 1 / 2 = ?r)"
      unfolding r by simp
    then show ?thesis unfolding c by blast
  next
    case e
    have x: "0 \<le> t - 5 / 4" "t - 5 / 4 \<le> 3602879701896397 / 36028797018963968" using e by simp_all
    have c: "get_opacity_at_time 2 t =
      Inr (fadd (1 / 2) (fmul (1 / 2) (rnd (rnd (t - 5 / 4) / (3602879701896397 / 36028797018963968)))))"
      using e by (simp add: get_opacity_2 fsub_def)
    have r: "?r = 1 / 2 + 5 * (t - 5 / 4)" using e unfolding reference_2 by simp
    have np: "\<not> ?P" using e by simp
    have "\<bar>fadd (1 / 2) (fmul (1 / 2) (rnd (rnd (t - 5 / 4) / (3602879701896397 / 36028797018963968)))) - ?r\<bar>
        \<le> 25 / 144115188075855872"
      using brighten_interpolation_error [OF x] unfolding r by simp
    then have "\<bar>fadd (1 / 2) (fmul (1 / 2) (rnd (rnd (t - 5 / 4) / (3602879701896397 / 36028797018963968)))) - ?r\<bar>
        \<le> 1 / 4503599627370496"
      by linarith
    then show ?thesis unfolding c using np by blast
  next
    case f
    have "1 \<le> t" using f(1) by simp
    moreover have "t < of_int 6079859496950170 / 4503599627370496" using f(2) by simp
    ultimately have "t \<le> of_int (6079859496950170 - 1) / 4503599627370496"
      by (rule double_below_one [OF assms])
    then have False using f(1) by simp
    then show ?thesis by (rule FalseE)
  next
    case g
    have c: "get_opacity_at_time 2 t = Inr 1" using g by (simp add: get_opacity_2)
    have r: "?r = 1" using g unfolding reference_2 by simp
    have "\<bar>1 - ?r\<bar> \<le> 1 / 4503599627370496 \<and> (?P \<longrightarrow> 1 = ?r)" unfolding r by simp
    then show ?thesis unfolding c by blast
  qed
qed

text \<open>
  C1. \<open>get_opacity_at_time\<close> follows the piecewise-linear reference waveform for the start
  times \<open>[0.0, 0.25, 0.5]\<close> and \<open>[0.75, 1.0, 1.25]\<close>, which are the script's \<open>FADE_START\<close> and
  \<open>BRIGHTEN_START\<close>, up to the rounding of double arithmetic: for every dot index \<open>i\<close> in
  \<open>{0, 1, 2}\<close> and every time \<open>t\<close>, a double (in particular every one with \<open>0 \<le> t < 1.5\<close>),
  it returns a value that differs from the exact reference value by at most \<open>2\<^sup>-\<^sup>5\<^sup>2\<close>, and
  that is the reference value itself on the three constant pieces of the reference, that is
  before the fade, between the end of the fade and the start of the brightening, and once
  the brightening has ended. On the two transitions the values may differ: the quotient by
  \<open>0.1\<close> and the boundaries \<open>FADE_START[i] + 0.1\<close> and \<open>BRIGHTEN_START[i] + 0.1\<close> are rounded.
\<close>

theorem opacity_near_reference:
  assumes "i \<in> {0, 1, 2}" and "is_double t"
  shows "FADE_START = [0, 25 / 100, 5 / 10] \<and> BRIGHTEN_START = [75 / 100, 1, 125 / 100] \<and>
    (\<exists>v. get_opacity_at_time i t = Inr v \<and>
       \<bar>v - reference_waveform [0, 25 / 100, 5 / 10] [75 / 100, 1, 125 / 100] (nat i) t\<bar>
         \<le> 1 / 2 ^ 52 \<and>
       (t < [0, 25 / 100, 5 / 10] ! nat i \<or>
        [0, 25 / 100, 5 / 10] ! nat i + 1 / 10 \<le> t \<and> t < [75 / 100, 1, 125 / 100] ! nat i \<or>
        [75 / 100, 1, 125 / 100] ! nat i + 1 / 10 \<le> t \<longrightarrow>
        v = reference_waveform [0, 25 / 100, 5 / 10] [75 / 100, 1, 125 / 100] (nat i) t))"
proof -
  have r: "rnd t = t" using assms(2) by (simp add: is_double_def)
  consider "i = 0" | "i = 1" | "i = 2" using assms(1) by auto
  then have "\<exists>v. get_opacity_at_time i t = Inr v \<and>
       \<bar>v - reference_waveform [0, 25 / 100, 5 / 10] [75 / 100, 1, 125 / 100] (nat i) t\<bar>
         \<le> 1 / 2 ^ 52 \<and>
       (t < [0, 25 / 100, 5 / 10] ! nat i \<or>
        [0, 25 / 100, 5 / 10] ! nat i + 1 / 10 \<le> t \<and> t < [75 / 100, 1, 125 / 100] ! nat i \<or>
        [75 / 100, 1, 125 / 100] ! nat i + 1 / 10 \<le> t \<longrightarrow>
        v = reference_waveform [0, 25 / 100, 5 / 10] [75 / 100, 1, 125 / 100] (nat i) t)"
  proof cases
    case 1
    show ?thesis unfolding 1 using near_reference_0 [OF r] by simp
  next
    case 2
    show ?thesis unfolding 2 using near_reference_1 [OF r] by simp
  next
    case 3
    show ?thesis unfolding 3 using near_reference_2 [OF r] by (simp add: numeral_2_eq_2)
  qed
  then show ?thesis by (simp add: FADE_START_eq BRIGHTEN_START_eq)
qed

theorem opacity_near_reference_witness:
  "(1::int) \<in> {0, 1, 2} \<and> is_double (5 / 16) \<and>
   get_opacity_at_time 1 (5 / 16) = Inr (11 / 16) \<and>
   reference_waveform [0, 25 / 100, 5 / 10] [75 / 100, 1, 125 / 100] (nat 1) (5 / 16) = 11 / 16 \<and>
   is_double (1 / 2) \<and> [0, 25 / 100, 5 / 10] ! nat 1 + 1 / 10 \<le> (1 / 2 :: rat) \<and>
   (1 / 2 :: rat) < [75 / 100, 1, 125 / 100] ! nat 1 \<and>
   get_opacity_at_time 1 (1 / 2) = Inr (1 / 2) \<and>
   reference_waveform [0, 25 / 100, 5 / 10] [75 / 100, 1, 125 / 100] (nat 1) (1 / 2) = 1 / 2"
proof -
  have i: "(1::int) \<in> {0, 1, 2}" by simp
  have d: "is_double (5 / 16)" "is_double (1 / 2)"
    by (simp_all add: is_double_def float_ev split del: if_split)
  have g: "get_opacity_at_time 1 (5 / 16) = Inr (11 / 16)"
    by (simp add: get_opacity_1 float_ev split del: if_split)
  have h: "get_opacity_at_time 1 (1 / 2) = Inr (1 / 2)"
    by (simp add: get_opacity_1)
  have e: "reference_waveform [0, 25 / 100, 5 / 10] [75 / 100, 1, 125 / 100] (nat 1) (5 / 16) = 11 / 16"
    "reference_waveform [0, 25 / 100, 5 / 10] [75 / 100, 1, 125 / 100] (nat 1) (1 / 2) = 1 / 2"
    by (simp_all add: reference_waveform_def)
  from opacity_near_reference [OF i d(1)] opacity_near_reference [OF i d(2)]
  show ?thesis using d g h e by (simp add: FADE_START_eq BRIGHTEN_START_eq)
qed

theorem opacity_reference_counterexample:
  "is_double (float_lit (35 / 100)) \<and> 0 \<le> float_lit (35 / 100) \<and>
   float_lit (35 / 100) < 15 / 10 \<and>
   get_opacity_at_time 1 (float_lit (35 / 100)) = Inr (1 / 2) \<and>
   reference_waveform [0, 25 / 100, 5 / 10] [75 / 100, 1, 125 / 100] 1 (float_lit (35 / 100))
     = 4503599627370497 / 9007199254740992 \<and>
   get_opacity_at_time 1 (float_lit (35 / 100)) \<noteq>
     Inr (reference_waveform [0, 25 / 100, 5 / 10] [75 / 100, 1, 125 / 100] 1
       (float_lit (35 / 100)))"
proof -
  have t: "float_lit (7 / 20) = 3152519739159347 / 9007199254740992"
    by (simp add: float_ev split del: if_split)
  have d: "is_double (3152519739159347 / 9007199254740992)"
    by (simp add: is_double_def float_ev split del: if_split)
  have l: "get_opacity_at_time 1 (3152519739159347 / 9007199254740992) = Inr (1 / 2)"
    by (simp add: get_opacity_1)
  have r: "reference_waveform [0, 1 / 4, 1 / 2] [3 / 4, 1, 5 / 4] (Suc 0)
      (3152519739159347 / 9007199254740992) = 4503599627370497 / 9007199254740992"
    by (simp add: reference_waveform_def)
  show ?thesis by (simp add: t l r d)
qed

section \<open>Properties of the file operations\<close>

lemma int_truediv_returns:
  assumes "\<bar>n\<bar> \<le> 2 ^ 1000"
  shows "\<exists>q. int_truediv n FPS = Inr q"
proof -
  define M :: rat where "M = 2 ^ 1000"
  have r: "rnd M = M" unfolding M_def
    by (rule rnd_representable [of _ 1 1000]) simp_all
  have M: "M < 2 ^ 1024" unfolding M_def by (rule power_strict_increasing) simp_all
  have "rat_of_int \<bar>n\<bar> \<le> of_int (2 ^ 1000)" using assms by (simp only: of_int_le_iff)
  then have b: "\<bar>rat_of_int n\<bar> \<le> M" unfolding M_def by simp
  have "\<bar>rat_of_int n / 30\<bar> \<le> \<bar>rat_of_int n\<bar>" by simp
  from this b have "\<bar>rat_of_int n / 30\<bar> \<le> M" by (rule order_trans)
  then have "rat_of_int n / 30 \<le> M" and "- M \<le> rat_of_int n / 30"
    by (simp_all add: abs_le_iff)
  then have "rnd (rat_of_int n / 30) \<le> rnd M" and "rnd (- M) \<le> rnd (rat_of_int n / 30)"
    by (simp_all only: rnd_mono)
  then have "\<bar>rnd (rat_of_int n / 30)\<bar> \<le> M" by (simp add: rnd_minus r abs_le_iff)
  with M have "\<bar>rnd (rat_of_int n / 30)\<bar> < 2 ^ 1024" by simp
  then show ?thesis by (simp add: int_truediv_def FPS_def Let_def del: power_numeral)
qed

lemma frame_time_returns:
  assumes "\<bar>n\<bar> \<le> 2 ^ 1000"
  shows "\<exists>t. frame_time n = Inr t"
proof -
  obtain q where "int_truediv n FPS = Inr q" using int_truediv_returns [OF assms] by blast
  then show ?thesis
    by (simp add: frame_time_def float_mod_def CYCLE_DURATION_eq Let_def)
qed

lemma draw_dots_returns:
  assumes "set dots \<subseteq> {0, 1, 2}"
  shows "\<exists>img'. draw_dots t dots img = Inr img'"
  using assms
proof (induction dots arbitrary: img)
  case Nil
  then show ?case by simp
next
  case (Cons i rest)
  then have "i \<in> {0, 1, 2}" and r: "set rest \<subseteq> {0, 1, 2}" by simp_all
  then obtain v where "get_opacity_at_time i t = Inr v" using get_opacity_returns by blast
  then show ?case using Cons.IH [OF r] by (simp add: Let_def)
qed

lemma create_frame_returns:
  assumes "\<bar>n\<bar> \<le> 2 ^ 1000"
  shows "\<exists>img. create_frame n = Inr img"
proof -
  obtain t where "frame_time n = Inr t" using frame_time_returns [OF assms] by blast
  then show ?thesis
    using draw_dots_returns [of "[0, 1, 2]" t]
    by (simp add: create_frame_def py_range_NUM_DOTS Let_def)
qed

lemma list_all2_exists:
  assumes "\<forall>x \<in> set xs. \<exists>y. P x y"
  shows "\<exists>ys. list_all2 P xs ys"
  using assms
proof (induction xs)
  case Nil
  then show ?case by simp
next
  case (Cons x xs)
  then obtain y ys where "P x y" and "list_all2 P xs ys" by auto
  then have "list_all2 P (x # xs) (y # ys)" by simp
  then show ?case by blast
qed

lemma py_range_TOTAL_FRAMES: "py_range TOTAL_FRAMES = [0..44]"
  by (simp add: py_range_def TOTAL_FRAMES_eq)

lemma cycle_frames_exist:
  "\<exists>fs. list_all2 (\<lambda>n f. create_frame n = Inr f) [0..44] fs"
proof (rule list_all2_exists, rule ballI)
  fix n :: int
  assume "n \<in> set [0..44]"
  then have "0 \<le> n" and "n \<le> 44" by simp_all
  then have "\<bar>n\<bar> \<le> 44" by simp
  also have "(44::int) \<le> 2 ^ 1000"
  proof -
    have "(44::int) \<le> 2 ^ 6" by simp
    also have "\<dots> \<le> 2 ^ 1000" by (rule power_increasing) simp_all
    finally show ?thesis .
  qed
  finally show "\<exists>f. create_frame n = Inr f" by (rule create_frame_returns)
qed

lemma opacities_of_returns:
  assumes "set dots \<subseteq> {0, 1, 2}"
  shows "\<exists>vs. opacities_of dots t = Inr vs \<and> length vs = length dots"
  using assms
proof (induction dots)
  case Nil
  then show ?case by simp
next
  case (Cons i rest)
  then have "i \<in> {0, 1, 2}" and r: "set rest \<subseteq> {0, 1, 2}" by simp_all
  then obtain v where "get_opacity_at_time i t = Inr v" using get_opacity_returns by blast
  then show ?case using Cons.IH [OF r] by auto
qed

lemma key_moments_returns: "\<exists>rows. key_moments ts = Inr rows"
proof (induction ts)
  case Nil
  then show ?case by simp
next
  case (Cons t ts)
  obtain vs where v: "opacities_of (py_range NUM_DOTS) t = Inr vs" and "length vs = 3"
    using opacities_of_returns [of "[0, 1, 2]" t] by (auto simp: py_range_NUM_DOTS)
  then obtain a b c where "vs = [a, b, c]"
    by (cases vs; cases "tl vs"; cases "tl (tl vs)") auto
  then show ?case using v Cons.IH by (auto simp: py_index_dots)
qed

lemma frame_duration: "\<exists>q. int_truediv 1000 FPS = Inr q \<and> py_int q = 33"
proof -
  have "py_int (4691249611844267 / 140737488355328) = 33"
    by (simp add: py_int_def trunc_def floor_rat_numeral_ev)
  then show ?thesis using frame_duration_eq by blast
qed

lemma str_nat_digit: "n < 10 \<Longrightarrow> str_nat n = [digit_char n]"
  by (subst str_nat.simps) simp

lemma str_nat_two: "\<not> n < 10 \<Longrightarrow> n < 100 \<Longrightarrow> str_nat n = [digit_char (n div 10), digit_char (n mod 10)]"
  by (subst str_nat.simps) (simp add: str_nat_digit)

lemma replicate_small: "replicate 3 x = [x, x, x]" "replicate 2 x = [x, x]"
  by (simp_all add: numeral_3_eq_3 numeral_2_eq_2)

lemma format_04d_small:
  assumes "0 \<le> i" and "i < 100"
  shows "format_04d i = [CHR ''0'', CHR ''0'', digit_char (nat i div 10), digit_char (nat i mod 10)]"
proof (cases "nat i < 10")
  case True
  have z: "digit_char 0 = CHR ''0''" by (simp add: digit_char_def)
  have "\<not> i < 0" using assms by simp
  then have "format_04d i = replicate 3 (CHR ''0'') @ [digit_char (nat i)]"
    using True by (simp add: format_04d_def Let_def str_nat_digit)
  then show ?thesis using True by (simp add: replicate_small z)
next
  case False
  have n: "nat i < 100" using assms by simp
  have "\<not> i < 0" using assms by simp
  then have "format_04d i = replicate 2 (CHR ''0'') @ [digit_char (nat i div 10), digit_char (nat i mod 10)]"
    using False n by (simp add: format_04d_def Let_def str_nat_two)
  then show ?thesis by (simp add: replicate_small)
qed

lemma digit_char_inject:
  assumes "a < 10" and "b < 10"
  shows "digit_char a = digit_char b \<longleftrightarrow> a = b"
proof -
  have "distinct ''0123456789''" by simp
  moreover have "a < length ''0123456789''" and "b < length ''0123456789''" using assms by simp_all
  ultimately show ?thesis unfolding digit_char_def by (rule nth_eq_iff_index_eq)
qed

lemma temp_path_inject:
  assumes "0 \<le> i" and "i < 100" and "0 \<le> j" and "j < 100"
  shows "temp_path i = temp_path j \<longleftrightarrow> i = j"
proof
  assume "temp_path i = temp_path j"
  then have "format_04d i = format_04d j" by (simp add: temp_path_def)
  then have "digit_char (nat i div 10) = digit_char (nat j div 10)"
    and "digit_char (nat i mod 10) = digit_char (nat j mod 10)"
    unfolding format_04d_small [OF assms(1,2)] format_04d_small [OF assms(3,4)] by simp_all
  moreover have "nat i div 10 < 10" and "nat j div 10 < 10" using assms by simp_all
  moreover have "nat i mod 10 < 10" and "nat j mod 10 < 10" by simp_all
  ultimately have "nat i div 10 = nat j div 10" and "nat i mod 10 = nat j mod 10"
    by (simp_all only: digit_char_inject)
  then have "nat i = nat j" by (metis div_mult_mod_eq)
  then show "i = j" using assms by simp
qed simp

lemma temp_paths_distinct: "distinct (map temp_path [0..44])"
proof -
  have "inj_on temp_path {0..44}"
    by (rule inj_onI) (simp add: temp_path_inject)
  then have "inj_on temp_path (set [0..44])" by (simp only: set_upto)
  then show ?thesis by (simp only: distinct_map distinct_upto simp_thms)
qed


end
